theory Spec2Isabelle
  imports Main "HOL-Library.Word"
begin

unbundle bit_operations_syntax

section \<open>The native shim \<^verbatim>\<open>pal_rsa.cpp\<close>\<close>

text \<open>
  Every function of \<^verbatim>\<open>pal_rsa.cpp\<close> forwards to one primitive of the cryptographic
  library it is linked against. The library is not part of the sources, so it is a
  parameter of the model: a record with one field for each primitive the shim calls.
  A primitive reads and changes the world it can reach (its keys, its entropy, its error
  queue and the byte buffers it is handed by address), so each field is a function from
  that world to a result and a new world.

  A pointer is an optional address, \<open>None\<close> being \<^verbatim>\<open>nullptr\<close>. \<^verbatim>\<open>int32_t\<close>, \<^verbatim>\<open>int\<close> and
  \<^verbatim>\<open>unsigned int\<close> are 32-bit words, read signed with \<open>sint\<close> where the source's type is
  signed.
\<close>

type_synonym addr = nat
type_synonym pointer = "addr option"
type_synonym int32_t = "32 word"
type_synonym uint32_t = "32 word"

text \<open>The two padding constants of the library's header that the shim passes on.\<close>

datatype rsa_padding = RSA_PKCS1_PADDING | RSA_PKCS1_OAEP_PADDING

record 'w crypto_library =
  RSA_new :: "'w \<Rightarrow> pointer \<times> 'w"
  RSA_up_ref :: "pointer \<Rightarrow> 'w \<Rightarrow> int32_t \<times> 'w"
  RSA_free :: "pointer \<Rightarrow> 'w \<Rightarrow> 'w"
  d2i_RSAPublicKey :: "pointer \<Rightarrow> pointer \<Rightarrow> int32_t \<Rightarrow> 'w \<Rightarrow> pointer \<times> 'w"
  RSA_public_encrypt ::
    "int32_t \<Rightarrow> pointer \<Rightarrow> pointer \<Rightarrow> pointer \<Rightarrow> rsa_padding \<Rightarrow> 'w \<Rightarrow> int32_t \<times> 'w"
  RSA_private_decrypt ::
    "int32_t \<Rightarrow> pointer \<Rightarrow> pointer \<Rightarrow> pointer \<Rightarrow> rsa_padding \<Rightarrow> 'w \<Rightarrow> int32_t \<times> 'w"
  RSA_size :: "pointer \<Rightarrow> 'w \<Rightarrow> int32_t \<times> 'w"
  RSA_generate_key_ex :: "pointer \<Rightarrow> int32_t \<Rightarrow> pointer \<Rightarrow> pointer \<Rightarrow> 'w \<Rightarrow> int32_t \<times> 'w"
  RSA_sign ::
    "int32_t \<Rightarrow> pointer \<Rightarrow> uint32_t \<Rightarrow> pointer \<Rightarrow> uint32_t \<Rightarrow> pointer \<Rightarrow> 'w
      \<Rightarrow> (int32_t \<times> uint32_t) \<times> 'w"
  RSA_verify ::
    "int32_t \<Rightarrow> pointer \<Rightarrow> uint32_t \<Rightarrow> pointer \<Rightarrow> uint32_t \<Rightarrow> pointer \<Rightarrow> 'w \<Rightarrow> int32_t \<times> 'w"

text \<open>
  \<open>RSA_sign\<close> is handed the address of the local \<^verbatim>\<open>unsignedSigLen\<close>: the model passes the
  local's value in and gets its value after the call back, next to the return code.
\<close>

text \<open>The calls the shim makes, with the arguments it passes, in the order it makes them.\<close>

datatype lib_call =
    Call_RSA_new
  | Call_RSA_up_ref pointer
  | Call_RSA_free pointer
  | Call_d2i_RSAPublicKey pointer pointer int32_t
  | Call_RSA_public_encrypt int32_t pointer pointer pointer rsa_padding
  | Call_RSA_private_decrypt int32_t pointer pointer pointer rsa_padding
  | Call_RSA_size pointer
  | Call_RSA_generate_key_ex pointer int32_t pointer pointer
  | Call_RSA_sign int32_t pointer uint32_t pointer uint32_t pointer
  | Call_RSA_verify int32_t pointer uint32_t pointer uint32_t pointer

text \<open>
  The state a shim function runs in: the world of the library, the library calls made so
  far, and the \<^verbatim>\<open>int32_t\<close> cells of the caller that the shim itself writes through a
  pointer (\<^verbatim>\<open>*siglen\<close>).
\<close>

record 'w state =
  world :: 'w
  calls :: "lib_call list"
  cells :: "addr \<Rightarrow> int32_t"

text \<open>
  The one way a shim function itself can fail: an \<^verbatim>\<open>assert\<close> that does not hold stops the
  run where it stands, with the state reached so far.
\<close>

datatype shim_error = AssertionFailed

definition invoke :: "lib_call \<Rightarrow> ('w \<Rightarrow> 'a \<times> 'w) \<Rightarrow> 'w state \<Rightarrow> 'a \<times> 'w state" where
  "invoke c f s =
     (case f (world s) of (r, w') \<Rightarrow> (r, s\<lparr>world := w', calls := calls s @ [c]\<rparr>))"

definition INT32_MAX :: uint32_t where
  "INT32_MAX = 0x7FFFFFFF"

text \<open>
  \<^verbatim>\<open>UnsignedCast\<close> comes from \<^verbatim>\<open>pal_utilities.h\<close>, which is not among the sources either:
  it is the second parameter of the model. It takes a signed size and returns the
  unsigned one, or fails.
\<close>

record pal_utilities =
  UnsignedCast :: "int32_t \<Rightarrow> shim_error + uint32_t"

definition RsaCreate :: "'w crypto_library \<Rightarrow> 'w state \<Rightarrow> pointer \<times> 'w state" where
  "RsaCreate lib s = invoke Call_RSA_new (RSA_new lib) s"

definition RsaUpRef :: "'w crypto_library \<Rightarrow> pointer \<Rightarrow> 'w state \<Rightarrow> int32_t \<times> 'w state" where
  "RsaUpRef lib rsa s = invoke (Call_RSA_up_ref rsa) (RSA_up_ref lib rsa) s"

definition RsaDestroy :: "'w crypto_library \<Rightarrow> pointer \<Rightarrow> 'w state \<Rightarrow> 'w state" where
  "RsaDestroy lib rsa s =
     (if rsa \<noteq> None
      then snd (invoke (Call_RSA_free rsa) (\<lambda>w. ((), RSA_free lib rsa w)) s)
      else s)"

definition DecodeRsaPublicKey ::
  "'w crypto_library \<Rightarrow> pointer \<Rightarrow> int32_t \<Rightarrow> 'w state \<Rightarrow> pointer \<times> 'w state" where
  "DecodeRsaPublicKey lib buf len s =
     (if buf = None \<or> len = 0
      then (None, s)
      else invoke (Call_d2i_RSAPublicKey None buf len) (d2i_RSAPublicKey lib None buf len) s)"

definition RsaPublicEncrypt ::
  "'w crypto_library \<Rightarrow> int32_t \<Rightarrow> pointer \<Rightarrow> pointer \<Rightarrow> pointer \<Rightarrow> int32_t \<Rightarrow> 'w state
    \<Rightarrow> int32_t \<times> 'w state" where
  "RsaPublicEncrypt lib flen from to rsa useOaepPadding s =
     (let padding = (if useOaepPadding \<noteq> 0 then RSA_PKCS1_OAEP_PADDING else RSA_PKCS1_PADDING)
      in invoke (Call_RSA_public_encrypt flen from to rsa padding)
           (RSA_public_encrypt lib flen from to rsa padding) s)"

definition RsaPrivateDecrypt ::
  "'w crypto_library \<Rightarrow> int32_t \<Rightarrow> pointer \<Rightarrow> pointer \<Rightarrow> pointer \<Rightarrow> int32_t \<Rightarrow> 'w state
    \<Rightarrow> int32_t \<times> 'w state" where
  "RsaPrivateDecrypt lib flen from to rsa useOaepPadding s =
     (let padding = (if useOaepPadding \<noteq> 0 then RSA_PKCS1_OAEP_PADDING else RSA_PKCS1_PADDING)
      in invoke (Call_RSA_private_decrypt flen from to rsa padding)
           (RSA_private_decrypt lib flen from to rsa padding) s)"

definition RsaSize :: "'w crypto_library \<Rightarrow> pointer \<Rightarrow> 'w state \<Rightarrow> int32_t \<times> 'w state" where
  "RsaSize lib rsa s = invoke (Call_RSA_size rsa) (RSA_size lib rsa) s"

definition RsaGenerateKeyEx ::
  "'w crypto_library \<Rightarrow> pointer \<Rightarrow> int32_t \<Rightarrow> pointer \<Rightarrow> 'w state \<Rightarrow> int32_t \<times> 'w state" where
  "RsaGenerateKeyEx lib rsa bits e s =
     invoke (Call_RSA_generate_key_ex rsa bits e None) (RSA_generate_key_ex lib rsa bits e None) s"

text \<open>
  \<^verbatim>\<open>RsaSign\<close>: the guard on \<^verbatim>\<open>siglen\<close> comes first; the argument \<^verbatim>\<open>UnsignedCast(m_len)\<close> is
  evaluated before the call, the assertion on \<^verbatim>\<open>unsignedSigLen\<close> after it, and the store
  through \<^verbatim>\<open>siglen\<close> last.
\<close>

definition RsaSign ::
  "'w crypto_library \<Rightarrow> pal_utilities \<Rightarrow> int32_t \<Rightarrow> pointer \<Rightarrow> int32_t \<Rightarrow> pointer \<Rightarrow> pointer \<Rightarrow> pointer
    \<Rightarrow> 'w state \<Rightarrow> (shim_error + int32_t) \<times> 'w state" where
  "RsaSign lib util type m m_len sigret siglen rsa s =
     (case siglen of
        None \<Rightarrow> (Inr 0, s)
      | Some cell \<Rightarrow>
          (let unsignedSigLen = 0 in
           case UnsignedCast util m_len of
             Inl err \<Rightarrow> (Inl err, s)
           | Inr um_len \<Rightarrow>
               (case invoke (Call_RSA_sign type m um_len sigret unsignedSigLen rsa)
                       (RSA_sign lib type m um_len sigret unsignedSigLen rsa) s of
                  ((ret, unsignedSigLen'), s') \<Rightarrow>
                    if unsignedSigLen' \<le> INT32_MAX
                    then (Inr ret, s'\<lparr>cells := (cells s')(cell := unsignedSigLen')\<rparr>)
                    else (Inl AssertionFailed, s'))))"

definition RsaVerify ::
  "'w crypto_library \<Rightarrow> pal_utilities \<Rightarrow> int32_t \<Rightarrow> pointer \<Rightarrow> int32_t \<Rightarrow> pointer \<Rightarrow> int32_t \<Rightarrow> pointer
    \<Rightarrow> 'w state \<Rightarrow> (shim_error + int32_t) \<times> 'w state" where
  "RsaVerify lib util type m m_len sigbuf siglen rsa s =
     (case UnsignedCast util m_len of
        Inl err \<Rightarrow> (Inl err, s)
      | Inr um_len \<Rightarrow>
          (case UnsignedCast util siglen of
             Inl err \<Rightarrow> (Inl err, s)
           | Inr usiglen \<Rightarrow>
               (case invoke (Call_RSA_verify type m um_len sigbuf usiglen rsa)
                       (RSA_verify lib type m um_len sigbuf usiglen rsa) s of
                  (ret, s') \<Rightarrow> (Inr ret, s'))))"

section \<open>The RSA engine behind the shim\<close>

text \<open>
  The primitives the shim forwards to (\<^verbatim>\<open>RSA_public_encrypt\<close>, \<^verbatim>\<open>RSA_private_decrypt\<close>,
  \<^verbatim>\<open>RSA_sign\<close>, \<^verbatim>\<open>RSA_verify\<close>) are not among the sources. What they compute is described
  by the spec only, as an RSA engine of its own: big-integer arithmetic, keys, padding
  and the four operations. Every definition of this section is modelled from the spec
  and says which part of it; none of them is a translation of \<^verbatim>\<open>pal_rsa.cpp\<close>.
\<close>

type_synonym byte = "8 word"
type_synonym bytes = "byte list"

text \<open>Modelled from the spec: the error taxonomy of section 7.\<close>

datatype engine_error =
    MalformedKey | InvalidKeyParameters | KeyTooSmall | GenerationFailed | MessageTooLong
  | InvalidCiphertext | InvalidPadding | InvalidInput | EntropyUnavailable

text \<open>Modelled from the spec: the enumerated padding mode of sections 4.5 and 9.\<close>

datatype padding_mode = Pkcs1v15 | Oaep

text \<open>
  Modelled from the spec: the keys of section 3. A public key is \<open>{n, e}\<close>; a private key is
  \<open>{n, d}\<close> and optionally the CRT parameters \<open>p, q, dP, dQ, qInv\<close>. Big integers are
  natural numbers.
\<close>

record public_key =
  pub_modulus :: nat
  public_exponent :: nat

record crt_parameters =
  prime_p :: nat
  prime_q :: nat
  dP :: nat
  dQ :: nat
  qInv :: nat

record private_key =
  priv_modulus :: nat
  private_exponent :: nat
  crt :: "crt_parameters option"

text \<open>
  Modelled from the spec: modular exponentiation by binary square-and-multiply
  (section 4.1).
\<close>

function modexp :: "nat \<Rightarrow> nat \<Rightarrow> nat \<Rightarrow> nat" where
  "modexp b x m =
     (if x = 0 then 1 mod m
      else if even x then modexp (b * b mod m) (x div 2) m
      else b * modexp (b * b mod m) (x div 2) m mod m)"
  by pat_completeness auto
termination
  by (relation "measure (\<lambda>(b, x, m). x)") auto

declare modexp.simps [simp del]

text \<open>
  Modelled from the spec: a prime, as the invariant of the modulus in section 3 uses the
  word: a number above 1 that no number strictly between 1 and itself divides.
\<close>

definition is_prime :: "nat \<Rightarrow> bool" where
  "is_prime p \<longleftrightarrow> 1 < p \<and> (\<forall>d \<in> {2..<p}. \<not> d dvd p)"

text \<open>
  Modelled from the spec: the invariants of a key pair made from the primes \<open>p\<close> and \<open>q\<close>
  (sections 3, 4.2 and 4.3): \<open>p\<close> and \<open>q\<close> are distinct primes, odd as the candidates the
  generation samples; \<open>n = p \<cdot> q\<close>; \<open>1 < e < n\<close>; \<open>e \<cdot> d \<equiv> 1 (mod \<lambda>(n))\<close> with
  \<open>\<lambda>(n) = lcm(p - 1, q - 1)\<close>, which makes \<open>e\<close> coprime to \<open>\<lambda>(n)\<close>; and the CRT parameters,
  when the private key carries them, are \<open>p\<close>, \<open>q\<close>, \<open>dP = d mod (p - 1)\<close>,
  \<open>dQ = d mod (q - 1)\<close> and \<open>qInv = q\<^sup>-\<^sup>1 mod p\<close>.
\<close>

definition key_pair :: "nat \<Rightarrow> nat \<Rightarrow> public_key \<Rightarrow> private_key \<Rightarrow> bool" where
  "key_pair p q pk sk \<longleftrightarrow>
     is_prime p \<and> is_prime q \<and> p \<noteq> q \<and> odd p \<and> odd q
     \<and> pub_modulus pk = p * q \<and> priv_modulus sk = p * q
     \<and> 1 < public_exponent pk \<and> public_exponent pk < p * q
     \<and> public_exponent pk * private_exponent sk mod lcm (p - 1) (q - 1) = 1
     \<and> (case crt sk of
          None \<Rightarrow> True
        | Some c \<Rightarrow>
            prime_p c = p \<and> prime_q c = q
            \<and> dP c = private_exponent sk mod (p - 1)
            \<and> dQ c = private_exponent sk mod (q - 1)
            \<and> qInv c < p \<and> qInv c * q mod p = 1)"

text \<open>
  Modelled from the spec: the private-key operation of section 4.5. Without CRT
  parameters it is \<open>c\<^sup>d mod n\<close>; with them it computes modulo \<open>p\<close> and modulo \<open>q\<close> separately
  and combines the two results by the Chinese remainder theorem.
\<close>

definition direct_exponentiation :: "private_key \<Rightarrow> nat \<Rightarrow> nat" where
  "direct_exponentiation sk c = modexp c (private_exponent sk) (priv_modulus sk)"

definition crt_exponentiation :: "crt_parameters \<Rightarrow> nat \<Rightarrow> nat" where
  "crt_exponentiation c x =
     (let m1 = modexp (x mod prime_p c) (dP c) (prime_p c);
          m2 = modexp (x mod prime_q c) (dQ c) (prime_q c);
          h = qInv c * ((m1 + prime_p c - m2 mod prime_p c) mod prime_p c) mod prime_p c
      in m2 + h * prime_q c)"

definition private_exponentiation :: "private_key \<Rightarrow> nat \<Rightarrow> nat" where
  "private_exponentiation sk c =
     (case crt sk of
        None \<Rightarrow> direct_exponentiation sk c
      | Some params \<Rightarrow> crt_exponentiation params c)"

text \<open>
  Modelled from the spec: \<open>KeySizeInBytes\<close> of section 6, the modulus byte length \<open>k\<close>: the
  number of base-256 digits of the modulus.
\<close>

fun KeySizeInBytes :: "nat \<Rightarrow> nat" where
  "KeySizeInBytes n = (if n = 0 then 0 else Suc (KeySizeInBytes (n div 256)))"

declare KeySizeInBytes.simps [simp del]

text \<open>
  Modelled from the spec: the conversions between integers and big-endian byte buffers of
  a given length (sections 4.5 and 6).
\<close>

fun i2osp :: "nat \<Rightarrow> nat \<Rightarrow> bytes" where
  "i2osp x 0 = []"
| "i2osp x (Suc l) = i2osp (x div 256) l @ [of_nat (x mod 256)]"

definition os2ip :: "bytes \<Rightarrow> nat" where
  "os2ip bs = foldl (\<lambda>acc b. acc * 256 + unat b) 0 bs"

text \<open>
  Modelled from the spec: the non-zero random bytes of the padding string. The entropy
  source is an external collaborator (section 4.3); here it is the list of bytes it
  delivers. Zero bytes are skipped, and a source that runs out is \<open>EntropyUnavailable\<close>
  (section 5).
\<close>

definition nonzero_random :: "bytes \<Rightarrow> nat \<Rightarrow> engine_error + bytes" where
  "nonzero_random rnd cnt =
     (let ps = take cnt (filter (\<lambda>b. b \<noteq> 0) rnd)
      in if length ps < cnt then Inl EntropyUnavailable else Inr ps)"

text \<open>
  Modelled from the spec: PKCS#1 v1.5 encryption padding (section 4.4). A message of
  length \<open>L\<close> needs \<open>L \<le> k - 11\<close>, else \<open>MessageTooLong\<close>; the encoding is
  \<open>0x00 0x02 || PS || 0x00 || M\<close> with \<open>PS\<close> of \<open>k - L - 3\<close> non-zero random bytes.
\<close>

definition pkcs1_encryption_encode :: "nat \<Rightarrow> bytes \<Rightarrow> bytes \<Rightarrow> engine_error + bytes" where
  "pkcs1_encryption_encode k rnd M =
     (if k < length M + 11 then Inl MessageTooLong
      else case nonzero_random rnd (k - length M - 3) of
             Inl err \<Rightarrow> Inl err
           | Inr PS \<Rightarrow> Inr ([0, 2] @ PS @ [0] @ M))"

text \<open>
  Modelled from the spec: PKCS#1 v1.5 decoding (section 4.4) verifies the two leading
  bytes and locates the zero separator; any mismatch is \<open>InvalidPadding\<close>.
\<close>

definition pkcs1_encryption_decode :: "bytes \<Rightarrow> engine_error + bytes" where
  "pkcs1_encryption_decode EM =
     (case EM of
        b0 # b1 # rest \<Rightarrow>
          (case dropWhile (\<lambda>b. b \<noteq> 0) rest of
             [] \<Rightarrow> Inl InvalidPadding
           | sep # M \<Rightarrow> if b0 = 0 \<and> b1 = 2 then Inr M else Inl InvalidPadding)
      | _ \<Rightarrow> Inl InvalidPadding)"

text \<open>
  Modelled from the spec: the hash function OAEP uses (section 4.4), with its output
  length \<open>hLen\<close>. The spec does not fix one, so it is a parameter of the engine.
\<close>

record hash_function =
  digest :: "bytes \<Rightarrow> bytes"
  hLen :: nat

text \<open>
  Modelled from the spec: the bytewise exclusive or that applies a mask (section 4.4).
\<close>

definition xor_bytes :: "bytes \<Rightarrow> bytes \<Rightarrow> bytes" where
  "xor_bytes xs ys = map2 (XOR) xs ys"

text \<open>
  Modelled from the spec: the mask generation function MGF1, built from the hash
  function (section 4.4, glossary): the hashes of the seed followed by a 4-byte counter,
  one after the other for as many counters as the length asked for needs, cut to that
  length.
\<close>

definition mgf1 :: "hash_function \<Rightarrow> bytes \<Rightarrow> nat \<Rightarrow> bytes" where
  "mgf1 H seed len =
     take len (concat (map (\<lambda>i. digest H (seed @ i2osp i 4))
                         [0..<(len + hLen H - 1) div hLen H]))"

text \<open>
  Modelled from the spec: OAEP encoding (section 4.4). The message needs
  \<open>L \<le> k - 2 \<cdot> hLen - 2\<close>, else \<open>MessageTooLong\<close>; the seed is \<open>hLen\<close> random bytes. The spec
  names the scheme and its parts (lHash, seed, seed-derived mask, MGF1) without its
  layout, which is that of the scheme it names (RFC 8017, section 7.1), with the empty
  label:
  \<open>DB = lHash || PS || 0x01 || M\<close> with \<open>PS\<close> of zero bytes,
  \<open>EM = 0x00 || maskedSeed || maskedDB\<close>.
\<close>

definition oaep_encode :: "hash_function \<Rightarrow> nat \<Rightarrow> bytes \<Rightarrow> bytes \<Rightarrow> engine_error + bytes" where
  "oaep_encode H k rnd M =
     (if k < length M + 2 * hLen H + 2 then Inl MessageTooLong
      else if length rnd < hLen H then Inl EntropyUnavailable
      else
        (let seed = take (hLen H) rnd;
             lHash = digest H [];
             PS = replicate (k - length M - 2 * hLen H - 2) 0;
             DB = lHash @ PS @ [1] @ M;
             dbMask = mgf1 H seed (k - hLen H - 1);
             maskedDB = xor_bytes DB dbMask;
             seedMask = mgf1 H maskedDB (hLen H);
             maskedSeed = xor_bytes seed seedMask
         in Inr (0 # maskedSeed @ maskedDB)))"

text \<open>
  Modelled from the spec: OAEP decoding (section 4.4) validates the lHash comparison and
  the padding structure (the leading zero byte, the zero bytes of \<open>PS\<close>, the byte \<open>0x01\<close>)
  and fails with \<open>InvalidPadding\<close> whichever check failed.
\<close>

definition oaep_decode :: "hash_function \<Rightarrow> nat \<Rightarrow> bytes \<Rightarrow> engine_error + bytes" where
  "oaep_decode H k EM =
     (case EM of
        [] \<Rightarrow> Inl InvalidPadding
      | Y # rest \<Rightarrow>
          (let maskedSeed = take (hLen H) rest;
               maskedDB = drop (hLen H) rest;
               seedMask = mgf1 H maskedDB (hLen H);
               seed = xor_bytes maskedSeed seedMask;
               dbMask = mgf1 H seed (k - hLen H - 1);
               DB = xor_bytes maskedDB dbMask;
               lHash' = take (hLen H) DB
           in case dropWhile (\<lambda>b. b = 0) (drop (hLen H) DB) of
                [] \<Rightarrow> Inl InvalidPadding
              | one # M \<Rightarrow>
                  if Y = 0 \<and> lHash' = digest H [] \<and> one = 1 then Inr M
                  else Inl InvalidPadding))"

text \<open>
  Modelled from the spec: \<open>Encrypt\<close> (section 4.5) pads the message per padding mode,
  reads the result as an integer \<open>m\<close>, computes \<open>c = m\<^sup>e mod n\<close> and returns \<open>c\<close> as a
  \<open>k\<close>-byte big-endian buffer.
\<close>

definition Encrypt ::
  "hash_function \<Rightarrow> bytes \<Rightarrow> public_key \<Rightarrow> bytes \<Rightarrow> padding_mode \<Rightarrow> engine_error + bytes" where
  "Encrypt H rnd pk M mode =
     (let k = KeySizeInBytes (pub_modulus pk)
      in case (case mode of
                 Pkcs1v15 \<Rightarrow> pkcs1_encryption_encode k rnd M
               | Oaep \<Rightarrow> oaep_encode H k rnd M) of
           Inl err \<Rightarrow> Inl err
         | Inr EM \<Rightarrow>
             Inr (i2osp (modexp (os2ip EM) (public_exponent pk) (pub_modulus pk)) k))"

text \<open>
  Modelled from the spec: \<open>Decrypt\<close> (section 4.5) requires a ciphertext of length \<open>k\<close> and
  of numeric value below \<open>n\<close>, else \<open>InvalidCiphertext\<close>; it computes \<open>m = c\<^sup>d mod n\<close>, by
  CRT when the key has the parameters, and unpads per padding mode.
\<close>

definition Decrypt ::
  "hash_function \<Rightarrow> private_key \<Rightarrow> bytes \<Rightarrow> padding_mode \<Rightarrow> engine_error + bytes" where
  "Decrypt H sk C mode =
     (let k = KeySizeInBytes (priv_modulus sk)
      in if length C \<noteq> k \<or> priv_modulus sk \<le> os2ip C then Inl InvalidCiphertext
         else
           (let EM = i2osp (private_exponentiation sk (os2ip C)) k
            in case mode of
                 Pkcs1v15 \<Rightarrow> pkcs1_encryption_decode EM
               | Oaep \<Rightarrow> oaep_decode H k EM))"

text \<open>
  Modelled from the spec: a digest algorithm as \<open>Sign\<close> and \<open>Verify\<close> see it (sections 4.4
  and 4.5): the algorithm identifier that opens its fixed DigestInfo structure, and its
  expected hash length.
\<close>

record digest_algorithm =
  algorithm_identifier :: bytes
  hash_length :: nat

text \<open>
  Modelled from the spec: PKCS#1 v1.5 signature padding (section 4.4) encodes the
  DigestInfo (algorithm identifier, then hash) and pads it as the encryption padding
  does, with block type \<open>0x01\<close> and \<open>0xFF\<close> filler bytes, to the full modulus width; as
  there, the padded data needs 11 bytes of room.
\<close>

definition pkcs1_signature_encode ::
  "nat \<Rightarrow> digest_algorithm \<Rightarrow> bytes \<Rightarrow> engine_error + bytes" where
  "pkcs1_signature_encode k alg h =
     (let T = algorithm_identifier alg @ h
      in if k < length T + 11 then Inl MessageTooLong
         else Inr ([0, 1] @ replicate (k - length T - 3) 0xFF @ [0] @ T))"

text \<open>
  Modelled from the spec: \<open>Sign\<close> (section 4.5) fails with \<open>InvalidInput\<close> when the hash
  length is not the algorithm's, applies the signature padding to the digest and the
  private-key operation of \<open>Decrypt\<close> to the result, and returns a buffer of \<open>k\<close> bytes.
\<close>

definition Sign :: "private_key \<Rightarrow> bytes \<Rightarrow> digest_algorithm \<Rightarrow> engine_error + bytes" where
  "Sign sk h alg =
     (let k = KeySizeInBytes (priv_modulus sk)
      in if length h \<noteq> hash_length alg then Inl InvalidInput
         else case pkcs1_signature_encode k alg h of
                Inl err \<Rightarrow> Inl err
              | Inr EM \<Rightarrow> Inr (i2osp (private_exponentiation sk (os2ip EM)) k))"

text \<open>
  Modelled from the spec: \<open>Verify\<close> (section 4.5) computes \<open>m = signature\<^sup>e mod n\<close>,
  derives the expected padded encoding of the hash again and compares; it answers with a
  boolean and fails on malformed input sizes only.
\<close>

definition Verify ::
  "public_key \<Rightarrow> bytes \<Rightarrow> bytes \<Rightarrow> digest_algorithm \<Rightarrow> engine_error + bool" where
  "Verify pk h sig alg =
     (let k = KeySizeInBytes (pub_modulus pk)
      in if length h \<noteq> hash_length alg \<or> length sig \<noteq> k then Inl InvalidInput
         else case pkcs1_signature_encode k alg h of
                Inl err \<Rightarrow> Inr False
              | Inr EM \<Rightarrow>
                  Inr (i2osp (modexp (os2ip sig) (public_exponent pk) (pub_modulus pk)) k = EM))"

text \<open>
  Modelled from the spec: the plaintext lengths that are valid for a padding mode
  (section 4.4): \<open>L \<le> k - 11\<close> for PKCS#1 v1.5, \<open>L \<le> k - 2 \<cdot> hLen - 2\<close> for OAEP.
\<close>

definition valid_plaintext_length :: "hash_function \<Rightarrow> nat \<Rightarrow> padding_mode \<Rightarrow> nat \<Rightarrow> bool" where
  "valid_plaintext_length H k mode L =
     (case mode of Pkcs1v15 \<Rightarrow> L + 11 \<le> k | Oaep \<Rightarrow> L + 2 * hLen H + 2 \<le> k)"

text \<open>
  Modelled from the spec: an entropy source that does not run out while a message of
  length \<open>L\<close> is padded (section 5): it delivers the \<open>k - L - 3\<close> non-zero bytes of the
  PKCS#1 v1.5 padding string, or the \<open>hLen\<close> bytes of the OAEP seed.
\<close>

definition enough_entropy :: "hash_function \<Rightarrow> nat \<Rightarrow> padding_mode \<Rightarrow> nat \<Rightarrow> bytes \<Rightarrow> bool" where
  "enough_entropy H k mode L rnd =
     (case mode of
        Pkcs1v15 \<Rightarrow> k - L - 3 \<le> length (filter (\<lambda>b. b \<noteq> 0) rnd)
      | Oaep \<Rightarrow> hLen H \<le> length rnd)"

section \<open>Keys and parameters to evaluate the engine on\<close>

text \<open>
  A small key pair to evaluate the private-key operation on: \<open>p = 61\<close>, \<open>q = 53\<close>,
  \<open>n = 3233\<close>, \<open>e = 17\<close>, \<open>d = 413\<close>.
\<close>

definition small_public_key :: public_key where
  "small_public_key = \<lparr>pub_modulus = 3233, public_exponent = 17\<rparr>"

definition small_crt_parameters :: crt_parameters where
  "small_crt_parameters = \<lparr>prime_p = 61, prime_q = 53, dP = 53, dQ = 49, qInv = 38\<rparr>"

definition small_private_key :: private_key where
  "small_private_key =
     \<lparr>priv_modulus = 3233, private_exponent = 413, crt = Some small_crt_parameters\<rparr>"

text \<open>
  A chain of modular squarings with its quotients: \<open>square_chain N s cs\<close> checks, by
  multiplication only, that each pair \<open>(q, r)\<close> of \<open>cs\<close> is the quotient and the remainder
  of the square of the value before it, and returns the last remainder. It certifies
  the powers that the primality of the primes below rests on.
\<close>

fun square_chain :: "nat \<Rightarrow> nat \<Rightarrow> (nat \<times> nat) list \<Rightarrow> nat option" where
  "square_chain N s [] = Some s"
| "square_chain N s ((q, r) # cs) =
     (if s * s = q * N + r \<and> r < N then square_chain N r cs else None)"

text \<open>
  A key pair whose modulus has 14 bytes, so that there are plaintexts of valid length:
  \<open>p = 7 \<cdot> 2\<^sup>5\<^sup>2 + 1\<close>, \<open>q = 7 \<cdot> 2\<^sup>5\<^sup>0 + 1\<close>, \<open>e = 65537\<close>, with the squaring chains of 3
  modulo \<open>p\<close> and of 6 modulo \<open>q\<close>.
\<close>

definition large_prime_p :: nat where
  "large_prime_p =
     31525197391593473"

definition large_prime_q :: nat where
  "large_prime_q =
     7881299347898369"

definition large_prime_p_chain :: "(nat \<times> nat) list" where
  "large_prime_p_chain =
     [(0,
       9),
      (0,
       81),
      (0,
       6561),
      (0,
       43046721),
      (0,
       1853020188851841),
      (108918709616331,
       27519113295281718),
      (24022104830991272,
       1525026749863868),
      (73772942922810,
       8640812593102294),
      (2368379849987078,
       17971762268920542),
      (10245272536714494,
       17199399194676102),
      (9383583835599021,
       12623162021124471),
      (5054503463761024,
       31454410244833489),
      (31383782044584899,
       18502272893148894),
      (10859062925450209,
       27370522422537379),
      (23763388009186232,
       19770016159525905),
      (12398131377034316,
       1674082123449557),
      (88898759974163,
       154354244058150),
      (755752053280,
       8867149785181060),
      (2494079397383981,
       19676579748367587),
      (12281217014587570,
       11933463073271959),
      (4517260880311566,
       12600068523688963),
      (5036026414984251,
       24913228878621646),
      (19688028133460490,
       4772542032367546),
      (722506418208461,
       28828663353087063),
      (26362779601413199,
       23517858753515842),
      (17544368508785576,
       3493349426823516),
      (387102737733923,
       26133615753117677),
      (21664126757021368,
       12307224779545265),
      (4804657680419266,
       5782633714869407),
      (1060702404650483,
       27078846075434190),
      (23259613434572504,
       29114803909289708),
      (26888707345649544,
       1979136698898952),
      (124249248125981,
       14556140465376291),
      (6721011850167367,
       5401078350121090),
      (925343844220486,
       13391604572300222),
      (5688626491159538,
       13647766818753810),
      (5908338552980673,
       24195644147568771),
      (18570199210612708,
       5454425390795557),
      (943713562652858,
       2121155613344415),
      (142720791883837,
       28286030468296324),
      (25379683106020549,
       14009720079636299),
      (6225885099837712,
       420834739963625),
      (5617788087426,
       4852011148170127),
      (746768113440739,
       30236680570499582),
      (29000828783588304,
       13865695696634932),
      (6098534919973188,
       16273594726842700),
      (8400578180174764,
       17316746961574628),
      (9512064955734981,
       3632631735959371),
      (418586223749325,
       10956419504559916),
      (3807847001519861,
       5766901186459803),
      (1054938653715134,
       11086612459078427)]"

definition large_prime_q_chain :: "(nat \<times> nat) list" where
  "large_prime_q_chain =
     [(0,
       36),
      (0,
       1296),
      (0,
       1679616),
      (0,
       2821109907456),
      (1009815863,
       7387072156364489),
      (6923837381952362,
       341574644733543),
      (14803807440198,
       594068520095787),
      (44779089207277,
       3369319483918156),
      (1440411445320589,
       3807233111220995),
      (1839166782447204,
       6913423628579749),
      (6064409453112567,
       4383577820199778),
      (2438145495751473,
       7459426945201747),
      (7060136646838527,
       6681960982189546),
      (5665132181460598,
       6620268189721454),
      (5561005738923615,
       3106523633790181),
      (1224479449555529,
       6064762217980560),
      (4666913301605859,
       745040110969629),
      (70430615873213,
       2960935246908044),
      (1112397480336823,
       7623894899564249),
      (7374897320084800,
       6991877217242801),
      (6202828348860393,
       2403387852926584),
      (732908739614789,
       3295031912529915),
      (1377594585020520,
       888225030375345),
      (100103253252988,
       2938191114292453),
      (1095373572684965,
       5255473538435124),
      (3504498547001258,
       6440937257747174),
      (5263811324372328,
       6990746845053244),
      (6200822896627283,
       3599928838322109),
      (1644333893298819,
       744302278481670),
      (70291186427366,
       3099130957622846),
      (1218658531864732,
       2438932389717608),
      (754747528172476,
       1124816034150020),
      (160533314981667,
       3361145651799277),
      (1433431163304529,
       1736038208309528),
      (382402511016692,
       2605867777007436),
      (861602455571801,
       7525256069001527),
      (7185297297347950,
       3378524897838179),
      (1448292975745966,
       7662975540306587),
      (7450699629496454,
       6539391317705043),
      (5425963019343944,
       7446790780004513),
      (7036237360524543,
       1288869806196802),
      (210775571894595,
       4581082714611649),
      (2662799357279819,
       1541466579783990),
      (301488258687264,
       3462269833647684),
      (1520981740680019,
       1512412477574845),
      (290230252824242,
       3787643141312727),
      (1820288753498357,
       6457344367696796),
      (5290662674060788,
       4502043036610844),
      (2571706847919812,
       4915716260805708)]"

definition large_public_key :: public_key where
  "large_public_key =
     \<lparr>pub_modulus =
        248459517644733002099850567745537,
      public_exponent = 65537\<rparr>"

definition large_crt_parameters :: crt_parameters where
  "large_crt_parameters =
     \<lparr>prime_p = large_prime_p,
      prime_q = large_prime_q,
      dP =
        22236527455043585,
      dQ =
        6473928759246849,
      qInv =
        10508399130531159\<rparr>"

definition large_private_key :: private_key where
  "large_private_key =
     \<lparr>priv_modulus =
        248459517644733002099850567745537,
      private_exponent =
        22236527455043585,
      crt = Some large_crt_parameters\<rparr>"

text \<open>
  A stand-in for a hash function, with an output of two bytes, and two digest algorithms:
  one with a DigestInfo of three bytes, and SHA-256 with the 19 bytes that open its
  DigestInfo and its hash length of 32.
\<close>

definition checksum_hash :: hash_function where
  "checksum_hash = \<lparr>digest = (\<lambda>bs. [fold (XOR) bs 0, of_nat (length bs)]), hLen = 2\<rparr>"

definition tiny_digest_algorithm :: digest_algorithm where
  "tiny_digest_algorithm = \<lparr>algorithm_identifier = [0x30], hash_length = 2\<rparr>"

definition sha256_digest_algorithm :: digest_algorithm where
  "sha256_digest_algorithm =
     \<lparr>algorithm_identifier =
        [48, 49, 48, 13, 6, 9, 96, 134, 72, 1, 101, 3, 4, 2, 1, 5, 0, 4, 32],
      hash_length = 32\<rparr>"

text \<open>
  A library and a state to evaluate the shim on: the world is a counter of the calls that
  changed it, signing reports a 256-byte signature and verification answers 0.
\<close>

definition stub_library :: "nat crypto_library" where
  "stub_library =
     \<lparr>RSA_new = (\<lambda>w. (Some w, Suc w)),
      RSA_up_ref = (\<lambda>rsa w. (1, w)),
      RSA_free = (\<lambda>rsa w. w),
      d2i_RSAPublicKey = (\<lambda>a buf len w. (Some w, Suc w)),
      RSA_public_encrypt = (\<lambda>flen from to rsa padding w. (flen, Suc w)),
      RSA_private_decrypt = (\<lambda>flen from to rsa padding w. (flen, Suc w)),
      RSA_size = (\<lambda>rsa w. (256, w)),
      RSA_generate_key_ex = (\<lambda>rsa bits e cb w. (1, Suc w)),
      RSA_sign = (\<lambda>type m m_len sigret siglen rsa w. ((1, 256), Suc w)),
      RSA_verify = (\<lambda>type m m_len sigbuf siglen rsa w. (0, Suc w))\<rparr>"

definition state0 :: "nat state" where
  "state0 = \<lparr>world = 0, calls = [], cells = (\<lambda>a. 0)\<rparr>"

text \<open>
  A second library to evaluate the shim on: its world is the list of the padding schemes
  that encryption and decryption were run with, latest last, and both return the length
  they were given.
\<close>

definition recording_library :: "rsa_padding list crypto_library" where
  "recording_library =
     \<lparr>RSA_new = (\<lambda>w. (None, w)),
      RSA_up_ref = (\<lambda>rsa w. (1, w)),
      RSA_free = (\<lambda>rsa w. w),
      d2i_RSAPublicKey = (\<lambda>a buf len w. (None, w)),
      RSA_public_encrypt = (\<lambda>flen from to rsa padding w. (flen, w @ [padding])),
      RSA_private_decrypt = (\<lambda>flen from to rsa padding w. (flen, w @ [padding])),
      RSA_size = (\<lambda>rsa w. (256, w)),
      RSA_generate_key_ex = (\<lambda>rsa bits e cb w. (1, w)),
      RSA_sign = (\<lambda>type m m_len sigret siglen rsa w. ((1, 256), w)),
      RSA_verify = (\<lambda>type m m_len sigbuf siglen rsa w. (0, w))\<rparr>"

definition recording_state0 :: "rsa_padding list state" where
  "recording_state0 = \<lparr>world = [], calls = [], cells = (\<lambda>a. 0)\<rparr>"

text \<open>
  An \<^verbatim>\<open>UnsignedCast\<close> to evaluate the shim with: it fails on a negative size, as an
  assertion on the sign does, and keeps the bits of any other.
\<close>

definition asserting_utilities :: pal_utilities where
  "asserting_utilities =
     \<lparr>UnsignedCast = (\<lambda>v. if sint v < 0 then Inl AssertionFailed else Inr v)\<rparr>"

section \<open>Properties of the shim\<close>

lemma invoke_calls: "calls (snd (invoke c f s)) = calls s @ [c]"
  by (simp add: invoke_def split: prod.splits)

lemma invoke_result: "fst (invoke c f s) = fst (f (world s))"
  by (simp add: invoke_def split: prod.splits)

lemma invoke_cells: "cells (snd (invoke c f s)) = cells s"
  by (simp add: invoke_def split: prod.splits)

lemma RsaDestroy_null: "RsaDestroy lib None s = s"
  by (simp add: RsaDestroy_def)

lemma RsaGenerateKeyEx_forwards:
  "fst (RsaGenerateKeyEx lib rsa bits e s) = fst (RSA_generate_key_ex lib rsa bits e None (world s))"
  by (simp add: RsaGenerateKeyEx_def invoke_result)

text \<open>
  C3: when the buffer pointer is null or the length is zero, \<^verbatim>\<open>DecodeRsaPublicKey\<close> returns
  the null key and leaves the state as it was: the library's decoder is not called, so the
  pointer is never dereferenced and nothing fails.
\<close>

theorem DecodeRsaPublicKey_null_or_empty:
  "buf = None \<or> len = 0 \<Longrightarrow> DecodeRsaPublicKey lib buf len s = (None, s)"
  by (simp add: DecodeRsaPublicKey_def)

theorem DecodeRsaPublicKey_null_or_empty_witness:
  "DecodeRsaPublicKey stub_library None 16 state0 = (None, state0)
   \<and> DecodeRsaPublicKey stub_library (Some 4096) 0 state0 = (None, state0)"
  using DecodeRsaPublicKey_null_or_empty [of None 16 stub_library state0]
    DecodeRsaPublicKey_null_or_empty [of "Some 4096" 0 stub_library state0]
  by simp

text \<open>
  C4: whenever the two sizes are well formed, that is \<^verbatim>\<open>UnsignedCast\<close> accepts the hash
  length and the signature length, \<^verbatim>\<open>RsaVerify\<close> returns the library's verdict as its
  result, so a signature that does not verify gives the result 0 and no error; and
  whenever \<^verbatim>\<open>RsaVerify\<close> does fail, the failure is that of \<^verbatim>\<open>UnsignedCast\<close> on one of the
  two sizes.
\<close>

theorem RsaVerify_failure_is_a_result:
  "(UnsignedCast util m_len = Inr um_len \<and> UnsignedCast util siglen = Inr usiglen \<longrightarrow>
      fst (RsaVerify lib util type m m_len sigbuf siglen rsa s) =
        Inr (fst (RSA_verify lib type m um_len sigbuf usiglen rsa (world s))))
   \<and> (fst (RsaVerify lib util type m m_len sigbuf siglen rsa s) = Inl err \<longrightarrow>
        UnsignedCast util m_len = Inl err \<or> UnsignedCast util siglen = Inl err)"
  by (auto simp add: RsaVerify_def invoke_def split: prod.splits sum.splits)

theorem RsaVerify_failure_is_a_result_witness:
  "(UnsignedCast asserting_utilities 20 = Inr 20
     \<and> UnsignedCast asserting_utilities 256 = Inr 256
     \<and> fst (RSA_verify stub_library 64 (Some 1) 20 (Some 2) 256 (Some 3) (world state0)) = 0
     \<and> fst (RsaVerify stub_library asserting_utilities 64 (Some 1) 20 (Some 2) 256 (Some 3) state0)
           = Inr 0)
   \<and> (fst (RsaVerify stub_library asserting_utilities 64 (Some 1) (- 1) (Some 2) 256 (Some 3)
              state0)
         = Inl AssertionFailed
       \<and> UnsignedCast asserting_utilities (- 1) = Inl AssertionFailed)"
  using RsaVerify_failure_is_a_result
      [of asserting_utilities 20 20 256 256 stub_library 64 "Some 1" "Some 2" "Some 3" state0
        AssertionFailed]
    RsaVerify_failure_is_a_result
      [of asserting_utilities "- 1" 20 256 256 stub_library 64 "Some 1" "Some 2" "Some 3" state0
        AssertionFailed]
  by (simp add: RsaVerify_def invoke_def stub_library_def state0_def asserting_utilities_def)

text \<open>
  C7: the flag \<^verbatim>\<open>useOaepPadding\<close> alone selects the padding scheme of \<^verbatim>\<open>RsaPublicEncrypt\<close>
  and \<^verbatim>\<open>RsaPrivateDecrypt\<close>: OAEP when the flag is true (not zero), PKCS#1 v1.5 when it
  is false (zero). Each is exactly one run of the library's primitive with that padding:
  its result is the primitive's return code, the world it leaves (which holds the output
  buffer) is the one the primitive leaves when run with that padding, that one call is
  recorded, and no cell of the caller is written.
\<close>

theorem padding_flag_selects_scheme:
  "RsaPublicEncrypt lib flen from to rsa useOaepPadding s =
     invoke
       (Call_RSA_public_encrypt flen from to rsa
         (if useOaepPadding = 0 then RSA_PKCS1_PADDING else RSA_PKCS1_OAEP_PADDING))
       (RSA_public_encrypt lib flen from to rsa
         (if useOaepPadding = 0 then RSA_PKCS1_PADDING else RSA_PKCS1_OAEP_PADDING)) s
   \<and> RsaPublicEncrypt lib flen from to rsa useOaepPadding s =
     (fst (RSA_public_encrypt lib flen from to rsa
            (if useOaepPadding = 0 then RSA_PKCS1_PADDING else RSA_PKCS1_OAEP_PADDING) (world s)),
      \<lparr>world =
         snd (RSA_public_encrypt lib flen from to rsa
               (if useOaepPadding = 0 then RSA_PKCS1_PADDING else RSA_PKCS1_OAEP_PADDING) (world s)),
       calls =
         calls s @ [Call_RSA_public_encrypt flen from to rsa
           (if useOaepPadding = 0 then RSA_PKCS1_PADDING else RSA_PKCS1_OAEP_PADDING)],
       cells = cells s\<rparr>)
   \<and> RsaPrivateDecrypt lib flen from to rsa useOaepPadding s =
     invoke
       (Call_RSA_private_decrypt flen from to rsa
         (if useOaepPadding = 0 then RSA_PKCS1_PADDING else RSA_PKCS1_OAEP_PADDING))
       (RSA_private_decrypt lib flen from to rsa
         (if useOaepPadding = 0 then RSA_PKCS1_PADDING else RSA_PKCS1_OAEP_PADDING)) s
   \<and> RsaPrivateDecrypt lib flen from to rsa useOaepPadding s =
     (fst (RSA_private_decrypt lib flen from to rsa
            (if useOaepPadding = 0 then RSA_PKCS1_PADDING else RSA_PKCS1_OAEP_PADDING) (world s)),
      \<lparr>world =
         snd (RSA_private_decrypt lib flen from to rsa
               (if useOaepPadding = 0 then RSA_PKCS1_PADDING else RSA_PKCS1_OAEP_PADDING) (world s)),
       calls =
         calls s @ [Call_RSA_private_decrypt flen from to rsa
           (if useOaepPadding = 0 then RSA_PKCS1_PADDING else RSA_PKCS1_OAEP_PADDING)],
       cells = cells s\<rparr>)"
  by (cases s) (simp add: RsaPublicEncrypt_def RsaPrivateDecrypt_def invoke_def split: prod.splits)

theorem padding_flag_selects_scheme_witness:
  "RsaPublicEncrypt recording_library 5 (Some 1) (Some 2) (Some 3) 1 recording_state0 =
     (5, \<lparr>world = [RSA_PKCS1_OAEP_PADDING],
          calls = [Call_RSA_public_encrypt 5 (Some 1) (Some 2) (Some 3) RSA_PKCS1_OAEP_PADDING],
          cells = (\<lambda>a. 0)\<rparr>)
   \<and> RsaPublicEncrypt recording_library 5 (Some 1) (Some 2) (Some 3) 0 recording_state0 =
     (5, \<lparr>world = [RSA_PKCS1_PADDING],
          calls = [Call_RSA_public_encrypt 5 (Some 1) (Some 2) (Some 3) RSA_PKCS1_PADDING],
          cells = (\<lambda>a. 0)\<rparr>)
   \<and> RsaPrivateDecrypt recording_library 5 (Some 1) (Some 2) (Some 3) 1 recording_state0 =
     (5, \<lparr>world = [RSA_PKCS1_OAEP_PADDING],
          calls = [Call_RSA_private_decrypt 5 (Some 1) (Some 2) (Some 3) RSA_PKCS1_OAEP_PADDING],
          cells = (\<lambda>a. 0)\<rparr>)
   \<and> RsaPrivateDecrypt recording_library 5 (Some 1) (Some 2) (Some 3) 0 recording_state0 =
     (5, \<lparr>world = [RSA_PKCS1_PADDING],
          calls = [Call_RSA_private_decrypt 5 (Some 1) (Some 2) (Some 3) RSA_PKCS1_PADDING],
          cells = (\<lambda>a. 0)\<rparr>)"
  using padding_flag_selects_scheme
      [of recording_library 5 "Some 1" "Some 2" "Some 3" 1 recording_state0]
    padding_flag_selects_scheme
      [of recording_library 5 "Some 1" "Some 2" "Some 3" 0 recording_state0]
  by (simp add: recording_library_def recording_state0_def invoke_def)

text \<open>
  C10: whatever the other arguments are, \<^verbatim>\<open>RsaSign\<close> with a null \<^verbatim>\<open>siglen\<close> returns 0 and
  leaves the whole state as it was: no library call is recorded, so the signing primitive
  is not invoked, and neither the world of the library (which holds the signature buffer)
  nor any cell of the caller is written.
\<close>

theorem RsaSign_null_siglen:
  "RsaSign lib util type m m_len sigret None rsa s = (Inr 0, s)
   \<and> calls (snd (RsaSign lib util type m m_len sigret None rsa s)) = calls s
   \<and> world (snd (RsaSign lib util type m m_len sigret None rsa s)) = world s
   \<and> cells (snd (RsaSign lib util type m m_len sigret None rsa s)) = cells s"
  by (simp add: RsaSign_def)

section \<open>Arithmetic behind the engine\<close>

lemma modexp_power: "modexp b x m = b ^ x mod m"
proof (induction b x m rule: modexp.induct)
  case (1 b x m)
  show ?case
  proof (cases "x = 0")
    case True
    then show ?thesis by (simp add: modexp.simps)
  next
    case nz: False
    have split: "b ^ x = (b * b) ^ (x div 2) * b ^ (x mod 2)"
    proof -
      have "b ^ x = b ^ (2 * (x div 2) + x mod 2)" by simp
      also have "\<dots> = (b * b) ^ (x div 2) * b ^ (x mod 2)"
        by (simp only: power_add power_mult power2_eq_square)
      finally show ?thesis .
    qed
    show ?thesis
    proof (cases "even x")
      case True
      have "modexp b x m = modexp (b * b mod m) (x div 2) m"
        using nz True by (subst modexp.simps) simp
      also have "\<dots> = (b * b mod m) ^ (x div 2) mod m"
        using "1.IH"(1) [OF nz True] .
      also have "\<dots> = (b * b) ^ (x div 2) mod m"
        by (simp add: power_mod)
      also have "\<dots> = b ^ x mod m"
        using True split by (simp add: even_iff_mod_2_eq_zero)
      finally show ?thesis .
    next
      case False
      have "modexp b x m = b * modexp (b * b mod m) (x div 2) m mod m"
        using nz False by (subst modexp.simps) simp
      also have "\<dots> = b * ((b * b mod m) ^ (x div 2) mod m) mod m"
        using "1.IH"(2) [OF nz False] by simp
      also have "\<dots> = b * (b * b) ^ (x div 2) mod m"
        by (simp add: power_mod mod_mult_right_eq)
      also have "\<dots> = b ^ x mod m"
        using False split by (simp add: odd_iff_mod_2_eq_one mult.commute)
      finally show ?thesis .
    qed
  qed
qed

lemma is_prime_gt1: "is_prime p \<Longrightarrow> 1 < p"
  by (simp add: is_prime_def)

lemma is_prime_coprime: 
  assumes "is_prime p" "\<not> p dvd a"
  shows "coprime p a"
proof -
  let ?g = "gcd p a"
  have gp: "?g dvd p" and ga: "?g dvd a" by simp_all
  have "p \<noteq> 0" using assms(1) by (simp add: is_prime_def)
  then have "?g \<noteq> 0" by simp
  have "?g \<le> p" using gp \<open>p \<noteq> 0\<close> by (simp add: dvd_imp_le)
  have "?g \<noteq> p" using assms(2) by (metis gcd_dvd2)
  have "\<not> (2 \<le> ?g \<and> ?g < p)" using assms(1) gp by (auto simp: is_prime_def)
  then have "?g = 1" using \<open>?g \<noteq> 0\<close> \<open>?g \<le> p\<close> \<open>?g \<noteq> p\<close> by linarith
  then show ?thesis by (simp add: coprime_iff_gcd_eq_1)
qed

lemma is_prime_dvd_mult:
  assumes "is_prime p" "p dvd a * b"
  shows "p dvd a \<or> p dvd b"
proof (cases "p dvd a")
  case False
  then have "coprime p a" using assms(1) by (rule is_prime_coprime [rotated])
  then show ?thesis using assms(2) by (simp add: coprime_dvd_mult_right_iff)
qed simp

lemma is_prime_not_dvd_less: "is_prime p \<Longrightarrow> 0 < j \<Longrightarrow> j < p \<Longrightarrow> \<not> p dvd j"
  by (auto dest: dvd_imp_le)

lemma is_prime_not_dvd_fact: "is_prime p \<Longrightarrow> k < p \<Longrightarrow> \<not> p dvd fact k"
proof (induction k)
  case 0
  then show ?case by (simp add: is_prime_def)
next
  case (Suc k)
  then have "\<not> p dvd fact k" by simp
  moreover have "\<not> p dvd Suc k" using Suc.prems by (intro is_prime_not_dvd_less) simp_all
  ultimately show ?case using is_prime_dvd_mult [OF Suc.prems(1), of "Suc k" "fact k"] by auto
qed

lemma is_prime_dvd_choose:
  assumes "is_prime p" "0 < k" "k < p"
  shows "p dvd (p choose k)"
proof -
  have eq: "fact k * fact (p - k) * (p choose k) = fact p"
    using assms(3) by (intro binomial_fact_lemma) simp
  have "p dvd fact p" using assms(1) by (intro dvd_fact) (simp_all add: is_prime_def)
  then have "p dvd fact k * (fact (p - k) * (p choose k))" using eq by (simp add: mult.assoc)
  then have "p dvd fact (p - k) * (p choose k)"
    using is_prime_dvd_mult [OF assms(1)] is_prime_not_dvd_fact [OF assms(1) assms(3)] by blast
  moreover have "\<not> p dvd fact (p - k)"
    using assms by (intro is_prime_not_dvd_fact) simp_all
  ultimately show ?thesis using is_prime_dvd_mult [OF assms(1)] by blast
qed

lemma fermat_power_prime:
  assumes "is_prime p"
  shows "a ^ p mod p = a mod p"
proof (induction a)
  case 0
  then show ?case using assms by (simp add: is_prime_def power_0_left)
next
  case (Suc a)
  have p2: "2 \<le> p" using assms by (simp add: is_prime_def)
  let ?f = "\<lambda>k. (p choose k) * a ^ k"
  have "Suc a ^ p = (\<Sum>k\<le>p. ?f k)" using binomial [of a 1 p] by simp
  also have "{..p} = insert 0 (insert p {1..<p})" using p2 by auto
  also have "(\<Sum>k\<in>insert 0 (insert p {1..<p}). ?f k) = 1 + a ^ p + (\<Sum>k\<in>{1..<p}. ?f k)"
    using p2 by simp
  finally have eq: "Suc a ^ p = 1 + a ^ p + (\<Sum>k\<in>{1..<p}. ?f k)" .
  have "p dvd (\<Sum>k\<in>{1..<p}. ?f k)"
    by (intro dvd_sum dvd_mult2 is_prime_dvd_choose assms) auto
  then have "Suc a ^ p mod p = (1 + a ^ p) mod p"
    unfolding eq by (metis mod_add_self2 dvd_eq_mod_eq_0 mod_add_right_eq add.right_neutral)
  also have "\<dots> = (1 + a) mod p" using Suc.IH by (metis mod_add_right_eq)
  finally show ?case by simp
qed


lemma fermat_little:
  assumes "is_prime p" "\<not> p dvd a"
  shows "a ^ (p - 1) mod p = 1"
proof -
  have p1: "1 < p" using assms(1) by (simp add: is_prime_def)
  have a0: "0 < a" using assms(2) by (cases a) auto
  have "a ^ p mod p = a mod p" by (rule fermat_power_prime [OF assms(1)])
  moreover have "a ^ p = a * a ^ (p - 1)" using p1 by (cases p) auto
  ultimately have "(a * a ^ (p - 1)) mod p = (a * 1) mod p" by simp
  moreover have "a * 1 \<le> a * a ^ (p - 1)" using a0 by simp
  ultimately have "p dvd a * a ^ (p - 1) - a * 1"
    by (simp only: mod_eq_dvd_iff_nat)
  then have "p dvd a * (a ^ (p - 1) - 1)" by (simp add: right_diff_distrib')
  then have "p dvd a ^ (p - 1) - 1" using is_prime_dvd_mult [OF assms(1)] assms(2) by blast
  moreover have "1 \<le> a ^ (p - 1)" using a0 by simp
  ultimately show ?thesis by (metis mod_eq_dvd_iff_nat mod_less p1)
qed

lemma cong_mult_coprime:
  fixes x y :: nat
  assumes "coprime p q" "x mod p = y mod p" "x mod q = y mod q"
  shows "x mod (p * q) = y mod (p * q)"
proof -
  have "int x mod int p = int y mod int p" using assms(2) by (metis zmod_int)
  then have dp: "int p dvd int x - int y" by (simp add: mod_eq_dvd_iff)
  have "int x mod int q = int y mod int q" using assms(3) by (metis zmod_int)
  then have dq: "int q dvd int x - int y" by (simp add: mod_eq_dvd_iff)
  have "coprime (int p) (int q)" using assms(1) by simp
  then have "int p * int q dvd int x - int y" using dp dq by (simp add: divides_mult)
  then have "int x mod (int p * int q) = int y mod (int p * int q)"
    by (simp add: mod_eq_dvd_iff)
  then have "int (x mod (p * q)) = int (y mod (p * q))" by (simp add: zmod_int)
  then show ?thesis by (simp only: of_nat_eq_iff)
qed

lemma power_mod_prime_reduce:
  assumes "is_prime p" "\<not> p dvd a"
  shows "a ^ d mod p = a ^ (d mod (p - 1)) mod p"
proof -
  have "a ^ d = a ^ ((p - 1) * (d div (p - 1)) + d mod (p - 1))" by simp
  also have "\<dots> = (a ^ (p - 1)) ^ (d div (p - 1)) * a ^ (d mod (p - 1))"
    by (simp only: power_add power_mult)
  also have "\<dots> mod p = ((a ^ (p - 1) mod p) ^ (d div (p - 1)) mod p) * a ^ (d mod (p - 1)) mod p"
    by (simp only: power_mod mod_mult_left_eq)
  also have "\<dots> = a ^ (d mod (p - 1)) mod p"
    using fermat_little [OF assms] by simp
  finally show ?thesis .
qed

lemma power_mod_prime_exponent:
  assumes "is_prime p" "0 < d mod (p - 1)"
  shows "a ^ d mod p = (a mod p) ^ (d mod (p - 1)) mod p"
proof (cases "p dvd a")
  case True
  have "0 < d" using assms(2) by (cases "d = 0") auto
  then have "p dvd a ^ d" using True by (metis dvd_power dvd_trans)
  moreover have "a mod p = 0" using True by simp
  ultimately show ?thesis using assms(2) by (simp add: power_0_left)
next
  case False
  then show ?thesis using power_mod_prime_reduce [OF assms(1) False, of d] by (simp add: power_mod)
qed

lemma is_prime_distinct_coprime:
  assumes "is_prime p" "is_prime q" "p \<noteq> q"
  shows "coprime p q"
proof (rule is_prime_coprime [OF assms(1)])
  show "\<not> p dvd q"
  proof
    assume "p dvd q"
    moreover have "1 < p" "0 < q" using assms(1,2) by (simp_all add: is_prime_def)
    ultimately have "p \<in> {2..<q}" using assms(3) by (auto dest: dvd_imp_le)
    then show False using assms(2) \<open>p dvd q\<close> by (auto simp: is_prime_def)
  qed
qed

lemma key_pair_coprime: "key_pair p q pk sk \<Longrightarrow> coprime p q"
  by (simp add: key_pair_def is_prime_distinct_coprime)

lemma odd_prime_gt2: "is_prime p \<Longrightarrow> odd p \<Longrightarrow> 2 < p"
  by (cases "p = 2") (auto simp: is_prime_def)

lemma inverse_mod_lcm_left:
  fixes a b :: nat
  assumes "e * d mod lcm a b = 1" "1 < a"
  shows "e * d mod a = 1"
proof -
  have "e * d mod lcm a b mod a = e * d mod a" by (simp add: mod_mod_cancel)
  then show ?thesis using assms by simp
qed

lemma inverse_mod_pos:
  assumes "e * d mod a = 1" "1 < (a::nat)"
  shows "0 < d mod a"
proof (rule ccontr)
  assume "\<not> 0 < d mod a"
  then have "a dvd e * d" by auto
  then show False using assms by auto
qed

lemma key_pair_exponents:
  assumes "key_pair p q pk sk"
  shows "public_exponent pk * private_exponent sk mod (p - 1) = 1"
    and "public_exponent pk * private_exponent sk mod (q - 1) = 1"
    and "0 < private_exponent sk mod (p - 1)"
    and "0 < private_exponent sk mod (q - 1)"
proof -
  have p: "1 < p - 1" and q: "1 < q - 1"
    using assms odd_prime_gt2 [of p] odd_prime_gt2 [of q] by (auto simp: key_pair_def)
  have l: "public_exponent pk * private_exponent sk mod lcm (p - 1) (q - 1) = 1"
    using assms by (simp add: key_pair_def)
  show 1: "public_exponent pk * private_exponent sk mod (p - 1) = 1"
    using l p by (rule inverse_mod_lcm_left)
  show 2: "public_exponent pk * private_exponent sk mod (q - 1) = 1"
    using l q by (subst (asm) lcm.commute) (rule inverse_mod_lcm_left)
  show "0 < private_exponent sk mod (p - 1)" using 1 p by (rule inverse_mod_pos)
  show "0 < private_exponent sk mod (q - 1)" using 2 q by (rule inverse_mod_pos)
qed

lemma garner_combination:
  fixes m1 m2 :: nat
  assumes "m1 < p" "m2 < q" "u * q mod p = 1"
  defines "h \<equiv> u * ((m1 + p - m2 mod p) mod p) mod p"
  shows "(m2 + h * q) mod p = m1" and "(m2 + h * q) mod q = m2" and "m2 + h * q < p * q"
proof -
  let ?t = "(m1 + p - m2 mod p) mod p"
  have p0: "0 < p" using assms(1) by simp
  have "h * q mod p = (u * q mod p) * ?t mod p"
    unfolding h_def by (simp add: mod_simps ac_simps)
  then have hq: "h * q mod p = ?t" using assms(3) by simp
  have le: "m2 mod p \<le> m1 + p" using p0 by (simp add: trans_le_add2)
  have "(m2 + h * q) mod p = (m2 mod p + h * q mod p) mod p" by (simp add: mod_simps)
  also have "\<dots> = (m2 mod p + (m1 + p - m2 mod p)) mod p" unfolding hq by (simp add: mod_simps)
  also have "\<dots> = (m1 + p) mod p" using le by simp
  also have "\<dots> = m1" using assms(1) by simp
  finally show "(m2 + h * q) mod p = m1" .
  show "(m2 + h * q) mod q = m2" using assms(2) by simp
  have "h < p" unfolding h_def using p0 by simp
  then have "h * q \<le> (p - 1) * q" by (intro mult_le_mono1) simp
  then have "m2 + h * q < q + (p - 1) * q" using assms(2) by linarith
  also have "\<dots> = p * q" using p0 by (cases p) simp_all
  finally show "m2 + h * q < p * q" .
qed

lemma inverse_mod_lcmI:
  fixes a b x :: nat
  assumes "x mod a = 1" "x mod b = 1" "1 < a" "1 < b"
  shows "x mod lcm a b = 1"
proof -
  have x1: "1 \<le> x" using assms(1,3) by (cases x) auto
  have "a dvd x - 1" using assms(1,3) x1 by (metis mod_eq_dvd_iff_nat mod_less)
  moreover have "b dvd x - 1" using assms(2,4) x1 by (metis mod_eq_dvd_iff_nat mod_less)
  ultimately have "lcm a b dvd x - 1" by (rule lcm_least)
  moreover have "1 < lcm a b"
  proof -
    have "0 < lcm a b" using assms(3,4) by (simp add: lcm_pos_nat)
    then have "a \<le> lcm a b" by (intro dvd_imp_le) simp_all
    then show ?thesis using assms(3) by simp
  qed
  ultimately show ?thesis using x1 by (metis mod_eq_dvd_iff_nat mod_less)
qed

lemma is_prime_61: "is_prime 61" by code_simp
lemma is_prime_53: "is_prime 53" by code_simp

lemma small_key_pair: "key_pair 61 53 small_public_key small_private_key"
  unfolding key_pair_def small_public_key_def small_private_key_def small_crt_parameters_def
  by (simp add: is_prime_61 is_prime_53 inverse_mod_lcmI)

lemma crt_exponentiation_power:
  assumes "key_pair p q pk sk" "crt sk = Some c"
  shows "crt_exponentiation c x = x ^ private_exponent sk mod (p * q)"
proof -
  let ?d = "private_exponent sk"
  have pr: "is_prime p" "is_prime q" and n: "priv_modulus sk = p * q"
    using assms(1) by (simp_all add: key_pair_def)
  have c: "prime_p c = p" "prime_q c = q" "dP c = ?d mod (p - 1)" "dQ c = ?d mod (q - 1)"
    "qInv c * q mod p = 1"
    using assms by (simp_all add: key_pair_def)
  have p1: "1 < p" and q1: "1 < q" using pr by (simp_all add: is_prime_def)
  define m1 where "m1 = modexp (x mod p) (dP c) p"
  define m2 where "m2 = modexp (x mod q) (dQ c) q"
  have m1: "m1 = x ^ ?d mod p"
    unfolding m1_def modexp_power c
    using power_mod_prime_exponent [OF pr(1) key_pair_exponents(3) [OF assms(1)], of x] by simp
  have m2: "m2 = x ^ ?d mod q"
    unfolding m2_def modexp_power c
    using power_mod_prime_exponent [OF pr(2) key_pair_exponents(4) [OF assms(1)], of x] by simp
  have lt: "m1 < p" "m2 < q" using p1 q1 by (simp_all add: m1 m2)
  define r where "r = m2 + qInv c * ((m1 + p - m2 mod p) mod p) mod p * q"
  have r: "crt_exponentiation c x = r"
    by (simp add: crt_exponentiation_def Let_def c r_def m1_def m2_def)
  have "r mod p = m1" "r mod q = m2" "r < p * q"
    unfolding r_def by (rule garner_combination [OF lt c(5)])+
  then have "r mod (p * q) = x ^ ?d mod (p * q)"
    by (intro cong_mult_coprime key_pair_coprime [OF assms(1)]) (simp_all add: m1 m2)
  then show ?thesis using \<open>r < p * q\<close> by (simp add: r)
qed

text \<open>
  The primes have to be odd. With \<open>p = 2\<close>, \<open>q = 3\<close>, \<open>e = 5\<close> and \<open>d = 1\<close> every other
  invariant of a key pair holds (\<open>dP = d mod 1 = 0\<close>, \<open>dQ = 1\<close>, \<open>qInv = 1\<close>), and the
  CRT result for the ciphertext 2 is 5, where \<open>2\<^sup>1 mod 6\<close> is 2.
\<close>

lemma crt_exponentiation_even_prime:
  "crt_exponentiation \<lparr>prime_p = 2, prime_q = 3, dP = 0, dQ = 1, qInv = 1\<rparr> 2 = 5"
  "modexp 2 1 6 = 2"
  by (simp_all add: crt_exponentiation_def Let_def modexp.simps)

lemma private_exponentiation_power:
  assumes "key_pair p q pk sk"
  shows "private_exponentiation sk x = x ^ private_exponent sk mod (p * q)"
proof (cases "crt sk")
  case None
  then show ?thesis
    using assms by (simp add: private_exponentiation_def direct_exponentiation_def modexp_power key_pair_def)
next
  case (Some c)
  then show ?thesis
    using crt_exponentiation_power [OF assms Some] by (simp add: private_exponentiation_def)
qed

lemma rsa_power_inverse:
  assumes "key_pair p q pk sk" "x < p * q"
  shows "x ^ (public_exponent pk * private_exponent sk) mod (p * q) = x"
proof -
  let ?k = "public_exponent pk * private_exponent sk"
  have pr: "is_prime p" "is_prime q" using assms(1) by (simp_all add: key_pair_def)
  have "x ^ ?k mod p = x mod p"
    using power_mod_prime_exponent [OF pr(1), of ?k x] key_pair_exponents(1) [OF assms(1)] by simp
  moreover have "x ^ ?k mod q = x mod q"
    using power_mod_prime_exponent [OF pr(2), of ?k x] key_pair_exponents(2) [OF assms(1)] by simp
  ultimately have "x ^ ?k mod (p * q) = x mod (p * q)"
    by (intro cong_mult_coprime key_pair_coprime [OF assms(1)])
  then show ?thesis using assms(2) by simp
qed

lemma rsa_public_then_private:
  assumes "key_pair p q pk sk" "x < p * q"
  shows "private_exponentiation sk (modexp x (public_exponent pk) (pub_modulus pk)) = x"
proof -
  have n: "pub_modulus pk = p * q" using assms(1) by (simp add: key_pair_def)
  have "(x ^ public_exponent pk mod (p * q)) ^ private_exponent sk mod (p * q)
        = x ^ (public_exponent pk * private_exponent sk) mod (p * q)"
    by (simp add: power_mod power_mult)
  then show ?thesis
    using rsa_power_inverse [OF assms]
    by (simp add: private_exponentiation_power [OF assms(1)] modexp_power n)
qed

lemma rsa_private_then_public:
  assumes "key_pair p q pk sk" "x < p * q"
  shows "modexp (private_exponentiation sk x) (public_exponent pk) (pub_modulus pk) = x"
proof -
  have n: "pub_modulus pk = p * q" using assms(1) by (simp add: key_pair_def)
  have "(x ^ private_exponent sk mod (p * q)) ^ public_exponent pk mod (p * q)
        = x ^ (public_exponent pk * private_exponent sk) mod (p * q)"
    by (simp add: power_mod power_mult [symmetric] mult.commute)
  then show ?thesis
    using rsa_power_inverse [OF assms]
    by (simp add: private_exponentiation_power [OF assms(1)] modexp_power n)
qed

subsection \<open>Primality by a Lucas certificate\<close>

lemma prime_factor_exists: "1 < n \<Longrightarrow> \<exists>r. is_prime r \<and> r dvd n"
proof (induction n rule: less_induct)
  case (less n)
  show ?case
  proof (cases "is_prime n")
    case True
    then show ?thesis by auto
  next
    case False
    with less.prems obtain d where d: "d \<in> {2..<n}" "d dvd n" by (auto simp: is_prime_def)
    then obtain r where "is_prime r" "r dvd d" using less.IH [of d] by auto
    then show ?thesis using d(2) by (blast intro: dvd_trans)
  qed
qed

lemma is_prime_dvd_power: "is_prime r \<Longrightarrow> r dvd b ^ m \<Longrightarrow> r dvd b"
proof (induction m)
  case 0
  then show ?case by (simp add: is_prime_def)
next
  case (Suc m)
  then show ?case using is_prime_dvd_mult [of r b "b ^ m"] by auto
qed

lemma is_prime_dvd_prime:
  assumes "is_prime r" "is_prime c" "r dvd c"
  shows "r = c"
proof (rule ccontr)
  assume "r \<noteq> c"
  moreover have "r \<le> c" using assms(2,3) by (auto simp: is_prime_def dest: dvd_imp_le)
  moreover have "2 \<le> r" using assms(1) by (simp add: is_prime_def)
  ultimately have "r \<in> {2..<c}" by simp
  then show False using assms(2,3) by (auto simp: is_prime_def)
qed

lemma lucas_primality:
  assumes N: "1 < N" and one: "a ^ (N - 1) mod N = 1"
    and gen: "\<And>r. is_prime r \<Longrightarrow> r dvd N - 1 \<Longrightarrow> a ^ ((N - 1) div r) mod N \<noteq> 1"
  shows "is_prime N"
proof -
  let ?P = "\<lambda>i. 0 < i \<and> a ^ i mod N = 1"
  define ord where "ord = (LEAST i. ?P i)"
  have PN: "?P (N - 1)" using N one by simp
  have ord: "0 < ord" "a ^ ord mod N = 1" using LeastI [of ?P, OF PN] by (simp_all add: ord_def)
  have least: "ord \<le> i" if "0 < i" "a ^ i mod N = 1" for i
    unfolding ord_def using that by (intro Least_le) simp
  have pow_ord: "a ^ (ord * t) mod N = 1" for t
  proof -
    have "a ^ (ord * t) mod N = (a ^ ord mod N) ^ t mod N" by (simp add: power_mult power_mod)
    then show ?thesis using ord(2) N by simp
  qed
  have dvd: "ord dvd N - 1"
  proof -
    let ?r = "(N - 1) mod ord"
    have "a ^ (N - 1) = a ^ (ord * ((N - 1) div ord)) * a ^ ?r" by (simp add: power_add [symmetric])
    then have "a ^ (N - 1) mod N = (a ^ (ord * ((N - 1) div ord)) mod N) * a ^ ?r mod N"
      by (simp add: mod_mult_left_eq)
    then have r1: "a ^ ?r mod N = 1" using one pow_ord by simp
    have "?r < ord" using ord(1) by simp
    then have "?r = 0" using least [of ?r] r1 by (cases "?r = 0") auto
    then show ?thesis by auto
  qed
  have eq: "ord = N - 1"
  proof (rule ccontr)
    assume ne: "ord \<noteq> N - 1"
    obtain t where t: "N - 1 = ord * t" using dvd by (auto elim: dvdE)
    have "t \<noteq> 0" using t N by (cases t) auto
    moreover have "t \<noteq> 1" using t ne by auto
    ultimately have "1 < t" by simp
    then obtain r where r: "is_prime r" "r dvd t" using prime_factor_exists by blast
    then obtain u where u: "t = r * u" by (auto elim: dvdE)
    have r0: "0 < r" using r(1) by (simp add: is_prime_def)
    have rd: "r dvd N - 1" using t r(2) by simp
    have "N - 1 = r * (ord * u)" using t u by simp
    then have "(N - 1) div r = ord * u" using r0 by simp
    then have "a ^ ((N - 1) div r) mod N = 1" using pow_ord by simp
    then show False using gen [OF r(1) rd] by simp
  qed
  have cop: "coprime (a ^ i mod N) N" for i
  proof -
    have "gcd (a ^ ord) N = gcd (a ^ ord mod N) N" by (metis gcd.commute gcd_red_nat)
    then have "coprime (a ^ ord) N" using ord(2) by (simp add: coprime_iff_gcd_eq_1)
    then have "coprime a N" using ord(1) by simp
    then have "coprime (a ^ i) N" by simp
    then show ?thesis by (metis coprime_iff_gcd_eq_1 gcd.commute gcd_red_nat)
  qed
  define f where "f i = a ^ i mod N" for i
  have neq: "f i \<noteq> f j" if "i < j" "j < ord" for i j
  proof
    assume "f i = f j"
    then have "a ^ i mod N * a ^ (ord - j) mod N = a ^ j mod N * a ^ (ord - j) mod N"
      by (simp add: f_def)
    then have "a ^ (i + (ord - j)) mod N = a ^ (j + (ord - j)) mod N"
      by (simp add: power_add mod_mult_left_eq)
    then have "a ^ (i + (ord - j)) mod N = 1" using that ord(2) by simp
    then have "ord \<le> i + (ord - j)" using that by (intro least) simp_all
    then show False using that by simp
  qed
  have inj: "inj_on f {0..<ord}"
    by (rule inj_onI) (metis neq atLeastLessThan_iff linorder_neqE_nat)
  have sub: "f ` {0..<ord} \<subseteq> {1..<N}"
  proof
    fix x assume "x \<in> f ` {0..<ord}"
    then obtain i where x: "x = a ^ i mod N" by (auto simp: f_def)
    have c: "coprime x N" unfolding x by (rule cop)
    have "x \<noteq> 0"
    proof
      assume "x = 0"
      with c have "coprime 0 N" by simp
      then show False using N by simp
    qed
    moreover have "x < N" using N by (simp add: x)
    ultimately show "x \<in> {1..<N}" by simp
  qed
  have "card (f ` {0..<ord}) = card {1..<N}" using inj by (simp add: card_image eq)
  then have img: "f ` {0..<ord} = {1..<N}" using sub by (intro card_subset_eq) simp_all
  have all: "coprime x N" if "x \<in> {1..<N}" for x
  proof -
    from that img obtain i where "x = f i" by blast
    then show ?thesis using cop [of i] by (simp add: f_def)
  qed
  show ?thesis
    unfolding is_prime_def
  proof (intro conjI ballI notI)
    show "1 < N" by (rule N)
  next
    fix d assume d: "d \<in> {2..<N}" "d dvd N"
    then have "coprime d N" by (intro all) simp
    then have "d = 1" using d(2) by auto
    then show False using d(1) by simp
  qed
qed


lemma square_chain_power:
  "square_chain N s cs = Some t \<Longrightarrow> t mod N = s ^ (2 ^ length cs) mod N"
proof (induction cs arbitrary: s)
  case Nil
  then show ?case by simp
next
  case (Cons c cs)
  obtain g r where c: "c = (g, r)" by (cases c)
  from Cons.prems have sq: "s * s = g * N + r" and rest: "square_chain N r cs = Some t"
    by (simp_all add: c split: if_splits)
  have "t mod N = r ^ (2 ^ length cs) mod N" using rest by (rule Cons.IH)
  also have "\<dots> = (r mod N) ^ (2 ^ length cs) mod N" by (simp add: power_mod)
  also have "r mod N = s * s mod N" by (simp add: sq)
  also have "(s * s mod N) ^ (2 ^ length cs) mod N = (s * s) ^ (2 ^ length cs) mod N"
    by (simp add: power_mod)
  also have "(s * s) ^ (2 ^ length cs) = s ^ (2 ^ length (c # cs))"
    by (simp add: power_mult [symmetric] power2_eq_square [symmetric])
  finally show ?case .
qed

lemma mod_eqI:
  fixes x :: nat
  assumes "x = t * m + r" "r < m"
  shows "x mod m = r"
  using assms by simp

lemma is_prime_2: "is_prime 2"
  by (simp add: is_prime_def)

lemma proth_certificate:
  assumes c: "is_prime c" and N: "N = c * 2 ^ Suc (length cs) + 1"
    and chain: "square_chain N a cs = Some u"
    and sq: "u * u = g * N + t" "t < N" "t \<noteq> 1"
    and half: "u ^ c = h * N + v" "v < N" "v \<noteq> 1"
    and full: "t ^ c = w * N + 1"
  shows "is_prime N"
proof (rule lucas_primality [where a = a])
  let ?m = "Suc (length cs)"
  have c0: "0 < c" using c by (simp add: is_prime_def)
  show N1: "1 < N" using c0 by (simp add: N)
  have N': "N - 1 = c * 2 ^ ?m" by (simp add: N)
  have u: "a ^ (2 ^ length cs) mod N = u mod N" using square_chain_power [OF chain] by simp
  have "a ^ (2 ^ ?m) = (a ^ (2 ^ length cs)) ^ 2" by (simp add: power_mult [symmetric] mult.commute)
  then have "a ^ (2 ^ ?m) mod N = (u mod N) ^ 2 mod N" by (simp only: u [symmetric] power_mod)
  also have "\<dots> = u * u mod N" by (simp add: power2_eq_square mod_mult_eq)
  also have "\<dots> = t" using sq(1,2) by simp
  finally have t: "a ^ (2 ^ ?m) mod N = t" .
  have "a ^ (N - 1) = (a ^ (2 ^ ?m)) ^ c"
    unfolding N' by (simp add: power_mult [symmetric] mult.commute)
  then have "a ^ (N - 1) mod N = t ^ c mod N" by (simp only: t [symmetric] power_mod)
  also have "\<dots> = 1" using full N1 by (intro mod_eqI [where t = w]) simp_all
  finally show "a ^ (N - 1) mod N = 1" .
  fix r assume r: "is_prime r" "r dvd N - 1"
  then have "r dvd c \<or> r dvd 2 ^ ?m" unfolding N' by (rule is_prime_dvd_mult)
  then consider "r = c" | "r = 2"
    using is_prime_dvd_prime [OF r(1) c] is_prime_dvd_prime [OF r(1) is_prime_2]
      is_prime_dvd_power [OF r(1), of 2 ?m] by blast
  then show "a ^ ((N - 1) div r) mod N \<noteq> 1"
  proof cases
    case 1
    then have "(N - 1) div r = 2 ^ ?m" unfolding N' using c0 by simp
    then show ?thesis using t sq(3) by simp
  next
    case 2
    then have "(N - 1) div r = c * 2 ^ length cs" unfolding N' by simp
    then have "a ^ ((N - 1) div r) = (a ^ (2 ^ length cs)) ^ c"
      by (simp add: power_mult [symmetric] mult.commute)
    then have "a ^ ((N - 1) div r) mod N = (u mod N) ^ c mod N" by (simp only: u [symmetric] power_mod)
    also have "\<dots> = u ^ c mod N" by (simp add: power_mod)
    also have "\<dots> = v" using half(1,2) by simp
    finally show ?thesis using half(3) by simp
  qed
qed

lemma is_prime_7: "is_prime 7" by code_simp

lemma is_prime_large_prime_p: "is_prime large_prime_p"
proof (rule proth_certificate [where c = 7 and cs = large_prime_p_chain and a = 3
      and u = 11086612459078427 and g = 3898880450803110 and t = 18687184652693299
      and h = 653031683019141119229780217960712241074548787741345191772565621340737595733244321872855330688947
      and v = 31525197391593472
      and w = 25243485752286330656497037300163833078146778822626727324515362801963918947564664384691955644513626])
  show "is_prime 7" by (rule is_prime_7)
  show "large_prime_p = 7 * 2 ^ Suc (length large_prime_p_chain) + 1"
    by (simp add: large_prime_p_def large_prime_p_chain_def)
  show "square_chain large_prime_p 3 large_prime_p_chain = Some 11086612459078427"
    by (simp add: large_prime_p_def large_prime_p_chain_def)
qed (simp_all add: large_prime_p_def)

lemma is_prime_large_prime_q: "is_prime large_prime_q"
proof (rule proth_certificate [where c = 7 and cs = large_prime_q_chain and a = 6
      and u = 4915716260805708 and g = 3066025700850115 and t = 296251403418829
      and h = 8800550239042181102030246679399582433106930290608597638331509950881481061833511719063158439936
      and v = 7881299347898368
      and w = 25411195152731236643469867760061849766981915358947100193081362144827670650588344800932])
  show "is_prime 7" by (rule is_prime_7)
  show "large_prime_q = 7 * 2 ^ Suc (length large_prime_q_chain) + 1"
    by (simp add: large_prime_q_def large_prime_q_chain_def)
  show "square_chain large_prime_q 6 large_prime_q_chain = Some 4915716260805708"
    by (simp add: large_prime_q_def large_prime_q_chain_def)
qed (simp_all add: large_prime_q_def)

section \<open>Byte buffers and the modulus byte length\<close>

lemma length_i2osp: "length (i2osp x l) = l"
  by (induction l arbitrary: x) simp_all

lemma os2ip_Nil: "os2ip [] = 0"
  by (simp add: os2ip_def)

lemma os2ip_snoc: "os2ip (bs @ [b]) = os2ip bs * 256 + unat b"
  by (simp add: os2ip_def)

lemma os2ip_lt: "os2ip bs < 256 ^ length bs"
proof (induction bs rule: rev_induct)
  case Nil
  then show ?case by (simp add: os2ip_Nil)
next
  case (snoc b bs)
  have "unat b < 256" using unsigned_less [of b, where ?'a = nat] by simp
  then have "os2ip bs * 256 + unat b < (os2ip bs + 1) * 256" by simp
  also have "\<dots> \<le> 256 ^ length bs * 256" using snoc.IH by (intro mult_le_mono1) simp
  finally show ?case by (simp add: os2ip_snoc)
qed

lemma os2ip_i2osp: "os2ip (i2osp x l) = x mod 256 ^ l"
proof (induction l arbitrary: x)
  case 0
  then show ?case by (simp add: os2ip_Nil)
next
  case (Suc l)
  have "unat (of_nat (x mod 256) :: byte) = x mod 256" by (simp add: unat_of_nat)
  then have "os2ip (i2osp x (Suc l)) = (x div 256 mod 256 ^ l) * 256 + x mod 256"
    by (simp add: os2ip_snoc Suc.IH)
  also have "\<dots> = x mod 256 ^ Suc l"
    by (simp add: mod_mult2_eq mult.commute)
  finally show ?case .
qed

lemma i2osp_os2ip: "i2osp (os2ip bs) (length bs) = bs"
proof (induction bs rule: rev_induct)
  case Nil
  then show ?case by simp
next
  case (snoc b bs)
  have b: "unat b < 256" using unsigned_less [of b, where ?'a = nat] by simp
  then have "(os2ip bs * 256 + unat b) div 256 = os2ip bs"
    and "(os2ip bs * 256 + unat b) mod 256 = unat b" by simp_all
  then show ?case by (simp add: os2ip_snoc snoc.IH)
qed

lemma os2ip_Cons: "os2ip (b # bs) = unat b * 256 ^ length bs + os2ip bs"
proof (induction bs rule: rev_induct)
  case Nil
  then show ?case using os2ip_snoc [of "[]" b] by (simp add: os2ip_Nil)
next
  case (snoc c bs)
  have "os2ip (b # bs @ [c]) = os2ip ((b # bs) @ [c])" by simp
  also have "\<dots> = os2ip (b # bs) * 256 + unat c" by (rule os2ip_snoc)
  finally show ?case by (simp add: snoc.IH os2ip_snoc algebra_simps)
qed

lemma os2ip_leading_zero: "os2ip (0 # bs) = os2ip bs"
  by (simp add: os2ip_Cons)

lemma KeySizeInBytes_upper: "n < 256 ^ KeySizeInBytes n"
proof (induction n rule: KeySizeInBytes.induct)
  case (1 n)
  show ?case
  proof (cases "n = 0")
    case True
    then show ?thesis by (simp add: KeySizeInBytes.simps)
  next
    case False
    then have "n div 256 < 256 ^ KeySizeInBytes (n div 256)" by (rule "1.IH")
    then have "n < 256 * 256 ^ KeySizeInBytes (n div 256)" by simp
    then show ?thesis using False by (subst KeySizeInBytes.simps) simp
  qed
qed

lemma KeySizeInBytes_lower: "0 < n \<Longrightarrow> 256 ^ (KeySizeInBytes n - 1) \<le> n"
proof (induction n rule: KeySizeInBytes.induct)
  case (1 n)
  show ?case
  proof (cases "n div 256 = 0")
    case True
    then show ?thesis using "1.prems" by (simp add: KeySizeInBytes.simps [of n] KeySizeInBytes.simps [of 0])
  next
    case False
    then have "256 ^ (KeySizeInBytes (n div 256) - 1) \<le> n div 256"
      using "1.IH" "1.prems" by simp
    moreover have "0 < KeySizeInBytes (n div 256)"
      using False by (subst KeySizeInBytes.simps) simp
    ultimately have "256 ^ KeySizeInBytes (n div 256) \<le> 256 * (n div 256)"
      by (cases "KeySizeInBytes (n div 256)") simp_all
    also have "\<dots> \<le> n" by simp
    finally show ?thesis using "1.prems" by (subst KeySizeInBytes.simps) simp
  qed
qed

lemma encoded_block_below_modulus:
  assumes "0 < n" "length EM = KeySizeInBytes n" "EM = 0 # rest"
  shows "os2ip EM < n"
proof -
  have "os2ip EM = os2ip rest" using assms(3) by (simp add: os2ip_leading_zero)
  also have "\<dots> < 256 ^ length rest" by (rule os2ip_lt)
  also have "length rest = KeySizeInBytes n - 1" using assms(2,3) by simp
  also have "256 ^ (KeySizeInBytes n - 1) \<le> n" using assms(1) by (rule KeySizeInBytes_lower)
  finally show ?thesis .
qed

lemma KeySizeInBytes_eqI:
  assumes "256 ^ k \<le> n" "n < 256 ^ Suc k"
  shows "KeySizeInBytes n = Suc k"
proof -
  have pos: "0 < n" using assms(1) by (cases n) auto
  have "256 ^ (KeySizeInBytes n - 1) < (256::nat) ^ Suc k"
    by (rule le_less_trans [OF KeySizeInBytes_lower [OF pos] assms(2)])
  then have "KeySizeInBytes n - 1 < Suc k"
    using power_less_imp_less_exp [of "256::nat" "KeySizeInBytes n - 1" "Suc k"] by simp
  moreover have "(256::nat) ^ k < 256 ^ KeySizeInBytes n"
    by (rule le_less_trans [OF assms(1) KeySizeInBytes_upper])
  then have "k < KeySizeInBytes n"
    using power_less_imp_less_exp [of "256::nat" k "KeySizeInBytes n"] by simp
  ultimately show ?thesis by simp
qed

lemma small_key_size: "KeySizeInBytes 3233 = 2"
  using KeySizeInBytes_eqI [of 1 3233] by simp

section \<open>Padding and the four operations\<close>

lemma key_pair_modulus_pos: "key_pair p q pk sk \<Longrightarrow> 0 < p * q"
  by (auto simp: key_pair_def is_prime_def)

lemma pkcs1_encryption_encode_ok:
  assumes "length M + 11 \<le> k" "k - length M - 3 \<le> length (filter (\<lambda>b. b \<noteq> 0) rnd)"
  shows "\<exists>PS. pkcs1_encryption_encode k rnd M = Inr (0 # 2 # PS @ 0 # M)
              \<and> length PS = k - length M - 3 \<and> (\<forall>b \<in> set PS. b \<noteq> 0)"
proof -
  let ?PS = "take (k - length M - 3) (filter (\<lambda>b. b \<noteq> 0) rnd)"
  have "length ?PS = k - length M - 3" using assms(2) by simp
  moreover have "\<forall>b \<in> set ?PS. b \<noteq> 0" by (auto dest: in_set_takeD)
  moreover have "pkcs1_encryption_encode k rnd M = Inr (0 # 2 # ?PS @ 0 # M)"
    using assms by (simp add: pkcs1_encryption_encode_def nonzero_random_def)
  ultimately show ?thesis by blast
qed

lemma pkcs1_encryption_decode_encoded:
  assumes "\<forall>b \<in> set PS. b \<noteq> 0"
  shows "pkcs1_encryption_decode (0 # 2 # PS @ 0 # M) = Inr M"
proof -
  have "dropWhile (\<lambda>b. b \<noteq> 0) (PS @ 0 # M) = 0 # M"
    using assms by (simp add: dropWhile_append2)
  then show ?thesis by (simp add: pkcs1_encryption_decode_def)
qed

lemma Decrypt_encrypted_block:
  assumes "key_pair p q pk sk" "length EM = KeySizeInBytes (p * q)" "EM = 0 # rest"
  defines "C \<equiv> i2osp (modexp (os2ip EM) (public_exponent pk) (pub_modulus pk)) (KeySizeInBytes (p * q))"
  shows "length C = KeySizeInBytes (p * q)"
    and "Decrypt H sk C mode =
          (case mode of
             Pkcs1v15 \<Rightarrow> pkcs1_encryption_decode EM
           | Oaep \<Rightarrow> oaep_decode H (KeySizeInBytes (p * q)) EM)"
proof -
  let ?n = "p * q" and ?k = "KeySizeInBytes (p * q)"
  let ?c = "modexp (os2ip EM) (public_exponent pk) (pub_modulus pk)"
  have n: "pub_modulus pk = ?n" "priv_modulus sk = ?n" using assms(1) by (simp_all add: key_pair_def)
  have pos: "0 < ?n" using assms(1) by (rule key_pair_modulus_pos)
  have em: "os2ip EM < ?n" using pos assms(2,3) by (rule encoded_block_below_modulus)
  have c: "?c < ?n" using pos by (simp add: modexp_power n)
  show len: "length C = ?k" by (simp add: C_def length_i2osp)
  have "?c < 256 ^ ?k" using c KeySizeInBytes_upper [of ?n] by simp
  then have os: "os2ip C = ?c" by (simp add: C_def os2ip_i2osp)
  have "private_exponentiation sk ?c = os2ip EM"
    using assms(1) em by (rule rsa_public_then_private)
  then have "i2osp (private_exponentiation sk (os2ip C)) ?k = EM"
    using i2osp_os2ip [of EM] by (simp add: os assms(2))
  then show "Decrypt H sk C mode =
          (case mode of
             Pkcs1v15 \<Rightarrow> pkcs1_encryption_decode EM
           | Oaep \<Rightarrow> oaep_decode H ?k EM)"
    using c by (simp add: Decrypt_def n len os Let_def)
qed

lemma Encrypt_Pkcs1v15:
  "Encrypt H rnd pk M Pkcs1v15 =
     (case pkcs1_encryption_encode (KeySizeInBytes (pub_modulus pk)) rnd M of
        Inl err \<Rightarrow> Inl err
      | Inr EM \<Rightarrow> Inr (i2osp (modexp (os2ip EM) (public_exponent pk) (pub_modulus pk))
                      (KeySizeInBytes (pub_modulus pk))))"
  by (simp add: Encrypt_def Let_def)

lemma Encrypt_Oaep:
  "Encrypt H rnd pk M Oaep =
     (case oaep_encode H (KeySizeInBytes (pub_modulus pk)) rnd M of
        Inl err \<Rightarrow> Inl err
      | Inr EM \<Rightarrow> Inr (i2osp (modexp (os2ip EM) (public_exponent pk) (pub_modulus pk))
                      (KeySizeInBytes (pub_modulus pk))))"
  by (simp add: Encrypt_def Let_def)

lemma Encrypt_Pkcs1v15_length_bound:
  "(length M + 11 \<le> KeySizeInBytes (pub_modulus pk)
      \<and> KeySizeInBytes (pub_modulus pk) - length M - 3 \<le> length (filter (\<lambda>b. b \<noteq> 0) rnd)
      \<longrightarrow> (\<exists>C. Encrypt H rnd pk M Pkcs1v15 = Inr C \<and> length C = KeySizeInBytes (pub_modulus pk)))
   \<and> (KeySizeInBytes (pub_modulus pk) < length M + 11
      \<longrightarrow> Encrypt H rnd pk M Pkcs1v15 = Inl MessageTooLong)"
proof (intro conjI impI)
  assume "length M + 11 \<le> KeySizeInBytes (pub_modulus pk)
      \<and> KeySizeInBytes (pub_modulus pk) - length M - 3 \<le> length (filter (\<lambda>b. b \<noteq> 0) rnd)"
  then obtain PS where
    "pkcs1_encryption_encode (KeySizeInBytes (pub_modulus pk)) rnd M = Inr (0 # 2 # PS @ 0 # M)"
    using pkcs1_encryption_encode_ok by blast
  then show "\<exists>C. Encrypt H rnd pk M Pkcs1v15 = Inr C \<and> length C = KeySizeInBytes (pub_modulus pk)"
    by (simp add: Encrypt_Pkcs1v15 length_i2osp)
next
  assume "KeySizeInBytes (pub_modulus pk) < length M + 11"
  then show "Encrypt H rnd pk M Pkcs1v15 = Inl MessageTooLong"
    by (simp add: Encrypt_Pkcs1v15 pkcs1_encryption_encode_def)
qed

lemma pkcs1_round_trip:
  assumes "key_pair p q pk sk"
    and "length M + 11 \<le> KeySizeInBytes (p * q)"
    and "KeySizeInBytes (p * q) - length M - 3 \<le> length (filter (\<lambda>b. b \<noteq> 0) rnd)"
  shows "\<exists>C. Encrypt H rnd pk M Pkcs1v15 = Inr C \<and> Decrypt H sk C Pkcs1v15 = Inr M"
proof -
  let ?k = "KeySizeInBytes (p * q)"
  have n: "pub_modulus pk = p * q" using assms(1) by (simp add: key_pair_def)
  obtain PS where enc: "pkcs1_encryption_encode ?k rnd M = Inr (0 # 2 # PS @ 0 # M)"
    and len: "length PS = ?k - length M - 3" and nz: "\<forall>b \<in> set PS. b \<noteq> 0"
    using pkcs1_encryption_encode_ok [OF assms(2,3)] by blast
  let ?EM = "0 # 2 # PS @ 0 # M"
  let ?C = "i2osp (modexp (os2ip ?EM) (public_exponent pk) (pub_modulus pk)) ?k"
  have "length ?EM = ?k" using len assms(2) by simp
  then have "Decrypt H sk ?C Pkcs1v15 = pkcs1_encryption_decode ?EM"
    using Decrypt_encrypted_block(2) [OF assms(1), of ?EM "2 # PS @ 0 # M" H Pkcs1v15] by simp
  moreover have "Encrypt H rnd pk M Pkcs1v15 = Inr ?C" by (simp add: Encrypt_Pkcs1v15 n enc)
  ultimately show ?thesis by (simp add: pkcs1_encryption_decode_encoded [OF nz])
qed

lemma length_xor_bytes: "length (xor_bytes xs ys) = min (length xs) (length ys)"
  by (simp add: xor_bytes_def)

lemma xor_bytes_cancel: "length xs = length ys \<Longrightarrow> xor_bytes (xor_bytes xs ys) ys = xs"
  by (induction xs ys rule: list_induct2) (simp_all add: xor_bytes_def xor.assoc)

lemma blocks_cover:
  fixes len h :: nat
  assumes "0 < h"
  shows "len \<le> (len + h - 1) div h * h"
proof -
  have "(len + h - 1) mod h \<le> h - 1" using assms by (simp add: Suc_leI le_diff_conv2 less_imp_le mod_less_divisor)
  moreover have "(len + h - 1) div h * h + (len + h - 1) mod h = len + h - 1" by simp
  ultimately show ?thesis using assms by linarith
qed

lemma length_concat_blocks:
  assumes "\<forall>x. length (f x) = h"
  shows "length (concat (map f xs)) = length xs * h"
  using assms by (induction xs) simp_all

lemma length_mgf1:
  assumes "0 < hLen H" "\<forall>x. length (digest H x) = hLen H"
  shows "length (mgf1 H seed len) = len"
proof -
  have "length (concat (map (\<lambda>i. digest H (seed @ i2osp i 4)) [0..<(len + hLen H - 1) div hLen H]))
        = (len + hLen H - 1) div hLen H * hLen H"
    using assms(2) by (subst length_concat_blocks [where h = "hLen H"]) simp_all
  then show ?thesis using blocks_cover [OF assms(1), of len] by (simp add: mgf1_def)
qed

lemma dropWhile_zero_padding: "dropWhile (\<lambda>b. b = 0) (replicate n (0::byte) @ 1 # M) = 1 # M"
  by (induction n) simp_all

lemma oaep_encode_ok:
  assumes h0: "0 < hLen H" and hlen: "\<forall>x. length (digest H x) = hLen H"
    and fit: "length M + 2 * hLen H + 2 \<le> k" and ent: "hLen H \<le> length rnd"
  shows "\<exists>rest. oaep_encode H k rnd M = Inr (0 # rest) \<and> length rest = k - 1
               \<and> oaep_decode H k (0 # rest) = Inr M"
proof -
  define h where "h = hLen H"
  define seed where "seed = take h rnd"
  define DB where "DB = digest H [] @ replicate (k - length M - 2 * h - 2) 0 @ [1] @ M"
  define maskedDB where "maskedDB = xor_bytes DB (mgf1 H seed (k - h - 1))"
  define maskedSeed where "maskedSeed = xor_bytes seed (mgf1 H maskedDB h)"
  note mgf = length_mgf1 [OF h0 hlen]
  have lseed: "length seed = h" using ent by (simp add: seed_def h_def)
  have lDB: "length DB = k - h - 1" using fit hlen by (simp add: DB_def h_def)
  have lmDB: "length maskedDB = k - h - 1" by (simp add: maskedDB_def length_xor_bytes lDB mgf)
  have lmSeed: "length maskedSeed = h" by (simp add: maskedSeed_def length_xor_bytes lseed mgf)
  have enc: "oaep_encode H k rnd M = Inr (0 # maskedSeed @ maskedDB)"
    using fit ent
    by (simp add: oaep_encode_def Let_def maskedSeed_def maskedDB_def DB_def seed_def h_def)
  have seed: "xor_bytes maskedSeed (mgf1 H maskedDB h) = seed"
    unfolding maskedSeed_def by (rule xor_bytes_cancel) (simp add: lseed mgf)
  have db: "xor_bytes maskedDB (mgf1 H seed (k - h - 1)) = DB"
    unfolding maskedDB_def by (rule xor_bytes_cancel) (simp add: lDB mgf)
  have tk: "take h DB = digest H []" using hlen by (simp add: DB_def h_def)
  have dr: "drop h DB = replicate (k - length M - 2 * h - 2) 0 @ 1 # M"
    using hlen by (simp add: DB_def h_def)
  have dec: "oaep_decode H k (0 # maskedSeed @ maskedDB) = Inr M"
    using db
    by (simp add: oaep_decode_def Let_def h_def [symmetric] lmSeed seed tk dr
        dropWhile_zero_padding)
  have "length (maskedSeed @ maskedDB) = k - 1" using fit by (simp add: lmSeed lmDB h_def)
  then show ?thesis using enc dec by blast
qed

lemma oaep_round_trip:
  assumes "key_pair p q pk sk"
    and "0 < hLen H" "\<forall>x. length (digest H x) = hLen H"
    and "length M + 2 * hLen H + 2 \<le> KeySizeInBytes (p * q)"
    and "hLen H \<le> length rnd"
  shows "\<exists>C. Encrypt H rnd pk M Oaep = Inr C \<and> Decrypt H sk C Oaep = Inr M"
proof -
  let ?k = "KeySizeInBytes (p * q)"
  have n: "pub_modulus pk = p * q" using assms(1) by (simp add: key_pair_def)
  obtain rest where enc: "oaep_encode H ?k rnd M = Inr (0 # rest)"
    and len: "length rest = ?k - 1" and dec: "oaep_decode H ?k (0 # rest) = Inr M"
    using oaep_encode_ok [OF assms(2-5)] by blast
  let ?C = "i2osp (modexp (os2ip (0 # rest)) (public_exponent pk) (pub_modulus pk)) ?k"
  have "length (0 # rest) = ?k" using len assms(4) by simp
  then have "Decrypt H sk ?C Oaep = oaep_decode H ?k (0 # rest)"
    using Decrypt_encrypted_block(2) [OF assms(1), of "0 # rest" rest H Oaep] by simp
  moreover have "Encrypt H rnd pk M Oaep = Inr ?C" by (simp add: Encrypt_Oaep n enc)
  ultimately show ?thesis by (simp add: dec)
qed

lemma private_exponentiation_less:
  assumes "key_pair p q pk sk"
  shows "private_exponentiation sk x < p * q"
  using key_pair_modulus_pos [OF assms] by (simp add: private_exponentiation_power [OF assms])

lemma pkcs1_signature_encode_ok:
  assumes "length (algorithm_identifier alg) + length h + 11 \<le> k"
  shows "\<exists>rest. pkcs1_signature_encode k alg h = Inr (0 # rest) \<and> length rest = k - 1"
  using assms by (simp add: pkcs1_signature_encode_def Let_def)

lemma pkcs1_signature_encode_too_long:
  assumes "k < length (algorithm_identifier alg) + length h + 11"
  shows "pkcs1_signature_encode k alg h = Inl MessageTooLong"
  using assms by (simp add: pkcs1_signature_encode_def Let_def)

lemma decode_failures_are_InvalidPadding:
  "pkcs1_encryption_decode EM = Inl err \<Longrightarrow> err = InvalidPadding"
  "oaep_decode H k EM = Inl err \<Longrightarrow> err = InvalidPadding"
  by (auto simp: pkcs1_encryption_decode_def oaep_decode_def Let_def
      split: list.splits if_splits)

subsection \<open>The 14-byte key pair\<close>

lemma large_modulus: "large_prime_p * large_prime_q = pub_modulus large_public_key"
  by (simp add: large_prime_p_def large_prime_q_def large_public_key_def)

lemma large_key_pair:
  "key_pair large_prime_p large_prime_q large_public_key large_private_key"
proof -
  have inv: "public_exponent large_public_key * private_exponent large_private_key
      mod lcm (large_prime_p - 1) (large_prime_q - 1) = 1"
    by (rule inverse_mod_lcmI)
      (simp_all add: large_public_key_def large_private_key_def large_prime_p_def
        large_prime_q_def)
  have crt: "dP large_crt_parameters = private_exponent large_private_key mod (large_prime_p - 1)"
    "dQ large_crt_parameters = private_exponent large_private_key mod (large_prime_q - 1)"
    "qInv large_crt_parameters < large_prime_p"
    "qInv large_crt_parameters * large_prime_q mod large_prime_p = 1"
    by (simp_all add: large_crt_parameters_def large_private_key_def large_prime_p_def
        large_prime_q_def)
  have "odd large_prime_p" "odd large_prime_q" "large_prime_p \<noteq> large_prime_q"
    by (simp_all add: large_prime_p_def large_prime_q_def)
  moreover have "priv_modulus large_private_key = large_prime_p * large_prime_q"
    "1 < public_exponent large_public_key"
    "public_exponent large_public_key < large_prime_p * large_prime_q"
    by (simp_all add: large_private_key_def large_public_key_def large_prime_p_def
        large_prime_q_def)
  moreover have "crt large_private_key = Some large_crt_parameters"
    "prime_p large_crt_parameters = large_prime_p" "prime_q large_crt_parameters = large_prime_q"
    by (simp_all add: large_private_key_def large_crt_parameters_def)
  ultimately show ?thesis
    unfolding key_pair_def
    using is_prime_large_prime_p is_prime_large_prime_q inv crt large_modulus by simp
qed

lemma large_key_size: "KeySizeInBytes (pub_modulus large_public_key) = 14"
  using KeySizeInBytes_eqI [of 13 "pub_modulus large_public_key"]
  by (simp add: large_public_key_def)

lemma checksum_hash_length: "length (digest checksum_hash x) = hLen checksum_hash"
  by (simp add: checksum_hash_def)

section \<open>Properties of the engine\<close>

text \<open>
  C5: for a private key that carries CRT parameters and satisfies the invariants of its
  key pair, the private-key operation (computed modulo \<open>p\<close> and modulo \<open>q\<close> and combined
  by CRT) gives, for every ciphertext \<open>c\<close> and so for every \<open>0 \<le> c < n\<close>, exactly the result
  of the direct exponentiation, which is \<open>c\<^sup>d mod n\<close>.
\<close>

theorem crt_exponentiation_eq_direct:
  assumes "key_pair p q pk sk" "crt sk = Some c"
  shows "private_exponentiation sk x = direct_exponentiation sk x
         \<and> direct_exponentiation sk x = x ^ private_exponent sk mod priv_modulus sk"
proof -
  have n: "priv_modulus sk = p * q" using assms(1) by (simp add: key_pair_def)
  have "private_exponentiation sk x = crt_exponentiation c x"
    by (simp add: private_exponentiation_def assms(2))
  then show ?thesis
    using crt_exponentiation_power [OF assms, of x]
    by (simp add: direct_exponentiation_def modexp_power n)
qed

theorem crt_exponentiation_eq_direct_witness:
  "key_pair 61 53 small_public_key small_private_key
   \<and> crt small_private_key = Some small_crt_parameters
   \<and> private_exponentiation small_private_key 2790 = direct_exponentiation small_private_key 2790
   \<and> direct_exponentiation small_private_key 2790 = 65"
  using crt_exponentiation_eq_direct [OF small_key_pair, of small_crt_parameters 2790, THEN conjunct1]
  by (simp add: small_key_pair) (simp add: small_private_key_def direct_exponentiation_def modexp.simps)

text \<open>
  C1: for every key pair that satisfies the invariants of generation (\<open>p\<close> and \<open>q\<close> distinct
  odd primes, \<open>e \<cdot> d \<equiv> 1 (mod \<lambda>(n))\<close> and so \<open>e\<close> coprime to \<open>\<lambda>(n)\<close>), with or without CRT
  parameters, and every plaintext of valid length for the padding mode (PKCS#1 v1.5 or
  OAEP, the latter with any hash function of fixed output length \<open>hLen > 0\<close>), \<open>Encrypt\<close>
  succeeds, the entropy source delivering the random bytes of the padding, and \<open>Decrypt\<close>
  of its ciphertext under the same mode returns the plaintext.
\<close>

theorem decrypt_encrypt_round_trip:
  assumes "key_pair p q pk sk"
    and "mode = Oaep \<longrightarrow> 0 < hLen H \<and> (\<forall>x. length (digest H x) = hLen H)"
    and "valid_plaintext_length H (KeySizeInBytes (pub_modulus pk)) mode (length M)"
    and "enough_entropy H (KeySizeInBytes (pub_modulus pk)) mode (length M) rnd"
  shows "\<exists>C. Encrypt H rnd pk M mode = Inr C \<and> Decrypt H sk C mode = Inr M"
proof -
  have n: "pub_modulus pk = p * q" using assms(1) by (simp add: key_pair_def)
  show ?thesis
  proof (cases mode)
    case Pkcs1v15
    then show ?thesis
      using assms(3,4) pkcs1_round_trip [OF assms(1), of M rnd H]
      by (simp add: valid_plaintext_length_def enough_entropy_def n)
  next
    case Oaep
    then show ?thesis
      using assms(2,3,4) oaep_round_trip [OF assms(1), of H M rnd]
      by (simp add: valid_plaintext_length_def enough_entropy_def n)
  qed
qed

theorem decrypt_encrypt_round_trip_witness:
  "key_pair large_prime_p large_prime_q large_public_key large_private_key
   \<and> valid_plaintext_length checksum_hash (KeySizeInBytes (pub_modulus large_public_key))
         Pkcs1v15 (length [0x68, 0x69, 0x21 :: byte])
   \<and> enough_entropy checksum_hash (KeySizeInBytes (pub_modulus large_public_key))
         Pkcs1v15 (length [0x68, 0x69, 0x21 :: byte]) (replicate 8 0x5A)
   \<and> (\<exists>C. Encrypt checksum_hash (replicate 8 0x5A) large_public_key [0x68, 0x69, 0x21] Pkcs1v15
             = Inr C
           \<and> Decrypt checksum_hash large_private_key C Pkcs1v15 = Inr [0x68, 0x69, 0x21])
   \<and> 0 < hLen checksum_hash
   \<and> (\<forall>x. length (digest checksum_hash x) = hLen checksum_hash)
   \<and> valid_plaintext_length checksum_hash (KeySizeInBytes (pub_modulus large_public_key))
         Oaep (length [0x68, 0x69, 0x21 :: byte])
   \<and> enough_entropy checksum_hash (KeySizeInBytes (pub_modulus large_public_key))
         Oaep (length [0x68, 0x69, 0x21 :: byte]) [0x5A, 0xA5]
   \<and> (\<exists>C. Encrypt checksum_hash [0x5A, 0xA5] large_public_key [0x68, 0x69, 0x21] Oaep = Inr C
           \<and> Decrypt checksum_hash large_private_key C Oaep = Inr [0x68, 0x69, 0x21])"
  using decrypt_encrypt_round_trip
      [OF large_key_pair, of Pkcs1v15 checksum_hash "[0x68, 0x69, 0x21]" "replicate 8 0x5A"]
    decrypt_encrypt_round_trip
      [OF large_key_pair, of Oaep checksum_hash "[0x68, 0x69, 0x21]" "[0x5A, 0xA5]"]
  by (simp add: large_key_pair large_key_size valid_plaintext_length_def enough_entropy_def
      checksum_hash_def)

text \<open>
  C2, as the engine has it: for every key pair that satisfies the invariants of
  generation and whose modulus byte length \<open>k\<close> leaves room for the padded DigestInfo
  (the length of the algorithm identifier and of the hash, plus 11, is at most \<open>k\<close>), every
  digest algorithm and every hash of the algorithm's expected length, \<open>Sign\<close> succeeds and
  \<open>Verify\<close> of its signature answers true.
\<close>

theorem verify_sign_round_trip:
  assumes "key_pair p q pk sk"
    and "length h = hash_length alg"
    and "length (algorithm_identifier alg) + hash_length alg + 11 \<le> KeySizeInBytes (pub_modulus pk)"
  shows "\<exists>sig. Sign sk h alg = Inr sig \<and> Verify pk h sig alg = Inr True"
proof -
  let ?n = "p * q" and ?k = "KeySizeInBytes (p * q)"
  have n: "pub_modulus pk = ?n" "priv_modulus sk = ?n" using assms(1) by (simp_all add: key_pair_def)
  have pos: "0 < ?n" using assms(1) by (rule key_pair_modulus_pos)
  obtain rest where enc: "pkcs1_signature_encode ?k alg h = Inr (0 # rest)"
    and len: "length rest = ?k - 1"
    using pkcs1_signature_encode_ok [of alg h ?k] assms(2,3) by (auto simp: n)
  let ?EM = "0 # rest"
  let ?s = "private_exponentiation sk (os2ip ?EM)"
  let ?sig = "i2osp ?s ?k"
  have lEM: "length ?EM = ?k" using len assms(3) by (simp add: n)
  have em: "os2ip ?EM < ?n" using pos lEM by (rule encoded_block_below_modulus) simp
  have "?s < ?n" using assms(1) by (rule private_exponentiation_less)
  then have "?s < 256 ^ ?k" using KeySizeInBytes_upper [of ?n] by simp
  then have os: "os2ip ?sig = ?s" by (simp add: os2ip_i2osp)
  have "modexp ?s (public_exponent pk) (pub_modulus pk) = os2ip ?EM"
    using assms(1) em by (rule rsa_private_then_public)
  then have enc_again: "i2osp (modexp (os2ip ?sig) (public_exponent pk) (pub_modulus pk)) ?k = ?EM"
    using i2osp_os2ip [of ?EM] by (simp only: os lEM)
  have "Sign sk h alg = Inr ?sig" using assms(2) by (simp add: Sign_def Let_def n enc)
  moreover have "Verify pk h ?sig alg = Inr True"
    using assms(2) enc_again by (simp add: Verify_def Let_def n enc length_i2osp)
  ultimately show ?thesis by blast
qed

theorem verify_sign_round_trip_witness:
  "key_pair large_prime_p large_prime_q large_public_key large_private_key
   \<and> length [0xAB, 0xCD :: byte] = hash_length tiny_digest_algorithm
   \<and> length (algorithm_identifier tiny_digest_algorithm) + hash_length tiny_digest_algorithm + 11
         \<le> KeySizeInBytes (pub_modulus large_public_key)
   \<and> (\<exists>sig. Sign large_private_key [0xAB, 0xCD] tiny_digest_algorithm = Inr sig
             \<and> Verify large_public_key [0xAB, 0xCD] sig tiny_digest_algorithm = Inr True)"
  using verify_sign_round_trip
      [OF large_key_pair, of "[0xAB, 0xCD]" tiny_digest_algorithm]
  by (simp add: large_key_pair large_key_size tiny_digest_algorithm_def)

text \<open>
  C2 fails as stated, for every key pair and every digest algorithm: the 14-byte key has
  no room for the DigestInfo of SHA-256, so \<open>Sign\<close> of a hash of the expected 32 bytes
  fails with \<open>MessageTooLong\<close> and there is no signature for \<open>Verify\<close> to accept.
\<close>

theorem verify_sign_counterexample:
  "key_pair large_prime_p large_prime_q large_public_key large_private_key
   \<and> length (replicate 32 (0 :: byte)) = hash_length sha256_digest_algorithm
   \<and> Sign large_private_key (replicate 32 0) sha256_digest_algorithm = Inl MessageTooLong
   \<and> \<not> (\<exists>sig. Sign large_private_key (replicate 32 0) sha256_digest_algorithm = Inr sig
              \<and> Verify large_public_key (replicate 32 0) sig sha256_digest_algorithm = Inr True)"
proof -
  have "KeySizeInBytes (priv_modulus large_private_key) = 14"
    using large_key_size by (simp add: large_private_key_def large_public_key_def)
  then have "Sign large_private_key (replicate 32 0) sha256_digest_algorithm = Inl MessageTooLong"
    by (simp add: Sign_def Let_def pkcs1_signature_encode_def sha256_digest_algorithm_def)
  then show ?thesis using large_key_pair by (simp add: sha256_digest_algorithm_def)
qed

end
